theory Spec2Isabelle
  imports Main "HOL-Library.Word"
begin

section \<open>Memory model\<close>

text \<open>
  The cache of \<^verbatim>\<open>proxy_cache.c\<close> is a pointer structure: heap-allocated
  \<^verbatim>\<open>cache_element\<close> structs threaded on a doubly-linked list, each owning a
  heap-allocated key string and payload buffer. The embedding keeps the pointers: a heap
  maps addresses to objects, \<^verbatim>\<open>NULL\<close> is \<open>None\<close>, and an access through a pointer
  that is \<^verbatim>\<open>NULL\<close>, freed or of the wrong kind is a fault (undefined behaviour in C),
  returned as \<open>Inl\<close>.

  \<^verbatim>\<open>size_t\<close> is taken as 64 bits wide (an LP64 or Win64 target); \<open>+\<close> and \<open>-\<close> wrap.
\<close>

type_synonym addr = nat
type_synonym size_t = "64 word"
type_synonym byte = "8 word"

text \<open>\<^verbatim>\<open>typedef struct cache_element { char* url; char* data; size_t len;
  struct cache_element* next; struct cache_element* prev; }\<close>\<close>

record cache_element =
  url :: "addr option"
  data :: "addr option"
  len :: size_t
  next_ptr :: "addr option"
  prev_ptr :: "addr option"

datatype obj = Element cache_element | CString string | Buffer "byte list"

type_synonym heap = "addr \<Rightarrow> obj option"

datatype fault = InvalidPointer | InvalidFree | BufferOverrun | ProcessExit

text \<open>\<^verbatim>\<open>#define MAX_CACHE_SIZE 100\<close>\<close>

definition MAX_CACHE_SIZE :: size_t where
  "MAX_CACHE_SIZE = 100"

subsection \<open>The allocator\<close>

text \<open>
  An allocation either fails (returns \<^verbatim>\<open>NULL\<close>) or returns an address that is not
  live. Which one happens is not decided by the program, so each allocation site takes
  the allocator's choice as an argument: \<open>None\<close> for failure, \<open>Some a\<close> for the address
  offered. An offered address that is live cannot be handed out, and the call then
  fails. Every behaviour of a real allocator is covered by some choice, and every choice
  is a behaviour a real allocator may show.
\<close>

definition alloc :: "addr option \<Rightarrow> obj \<Rightarrow> heap \<Rightarrow> addr option \<times> heap" where
  "alloc choice ob h =
     (case choice of
        None \<Rightarrow> (None, h)
      | Some a \<Rightarrow> if h a = None then (Some a, h(a \<mapsto> ob)) else (None, h))"

text \<open>\<^verbatim>\<open>malloc(n)\<close>: the new bytes are indeterminate in C; every caller here overwrites
  all of them with \<^verbatim>\<open>memcpy\<close> before anything reads them, and the model starts them at 0.\<close>

definition malloc :: "addr option \<Rightarrow> size_t \<Rightarrow> heap \<Rightarrow> addr option \<times> heap" where
  "malloc choice n h = alloc choice (Buffer (replicate (unat n) 0)) h"

text \<open>\<^verbatim>\<open>calloc(1, sizeof(cache_element))\<close>: all fields zero.\<close>

definition calloc_element :: "addr option \<Rightarrow> heap \<Rightarrow> addr option \<times> heap" where
  "calloc_element choice h =
     alloc choice (Element \<lparr>url = None, data = None, len = 0, next_ptr = None, prev_ptr = None\<rparr>) h"

definition strdup :: "addr option \<Rightarrow> string \<Rightarrow> heap \<Rightarrow> addr option \<times> heap" where
  "strdup choice str h = alloc choice (CString str) h"

text \<open>\<^verbatim>\<open>free(p)\<close>: nothing for \<^verbatim>\<open>NULL\<close>; freeing what is not live is a fault.\<close>

definition free :: "addr option \<Rightarrow> heap \<Rightarrow> fault + heap" where
  "free p h =
     (case p of
        None \<Rightarrow> Inr h
      | Some a \<Rightarrow> if h a = None then Inl InvalidFree else Inr (h(a := None)))"

subsection \<open>Reading and writing through pointers\<close>

definition get_element :: "heap \<Rightarrow> addr \<Rightarrow> fault + cache_element" where
  "get_element h a = (case h a of Some (Element e) \<Rightarrow> Inr e | _ \<Rightarrow> Inl InvalidPointer)"

definition get_string :: "heap \<Rightarrow> addr option \<Rightarrow> fault + string" where
  "get_string h p =
     (case p of
        None \<Rightarrow> Inl InvalidPointer
      | Some a \<Rightarrow> (case h a of Some (CString k) \<Rightarrow> Inr k | _ \<Rightarrow> Inl InvalidPointer))"

definition put_element :: "addr \<Rightarrow> (cache_element \<Rightarrow> cache_element) \<Rightarrow> heap \<Rightarrow> fault + heap" where
  "put_element a f h =
     (case h a of Some (Element e) \<Rightarrow> Inr (h(a \<mapsto> Element (f e))) | _ \<Rightarrow> Inl InvalidPointer)"

text \<open>\<^verbatim>\<open>memcpy(dst, src, n)\<close>, where \<open>src\<close> is the caller's buffer, given by its bytes.\<close>

definition memcpy :: "addr option \<Rightarrow> byte list \<Rightarrow> size_t \<Rightarrow> heap \<Rightarrow> fault + heap" where
  "memcpy dst src n h =
     (case dst of
        None \<Rightarrow> Inl InvalidPointer
      | Some a \<Rightarrow>
          (case h a of
             Some (Buffer bs) \<Rightarrow>
               if length src < unat n \<or> length bs < unat n then Inl BufferOverrun
               else Inr (h(a \<mapsto> Buffer (take (unat n) src @ drop (unat n) bs)))
           | _ \<Rightarrow> Inl InvalidPointer))"

section \<open>The cache state\<close>

text \<open>
  \<^verbatim>\<open>proxy_cache_t\<close>, the type of the global \<^verbatim>\<open>g_cache\<close>. The field \<^verbatim>\<open>map\<close> is the
  index; \<^verbatim>\<open>mutex\<close> is \<open>True\<close> while the lock is held. A \<open>world\<close> is \<^verbatim>\<open>g_cache\<close>
  together with the heap.

  The index comes from \<^verbatim>\<open>hashmap.h\<close>, which is not among the sources. It is held as
  an association list from the key's characters to the stored key pointer and the
  stored value pointer.
\<close>

type_synonym map_t = "(string \<times> addr \<times> addr) list"

record proxy_cache_t =
  map_tbl :: map_t
  head :: "addr option"
  tail :: "addr option"
  current_size :: size_t
  mutex :: bool

record world = proxy_cache_t +
  heap :: heap

text \<open>\<^verbatim>\<open>pthread_mutex_lock\<close> on a default mutex: a thread that finds the mutex held
  does not return until it is released, and within one thread never.\<close>

definition mutex_lock :: "world \<Rightarrow> world option" where
  "mutex_lock s = (if mutex s then None else Some (s\<lparr>mutex := True\<rparr>))"

definition mutex_unlock :: "world \<Rightarrow> world" where
  "mutex_unlock s = s\<lparr>mutex := False\<rparr>"

definition on_heap :: "(heap \<Rightarrow> fault + heap) \<Rightarrow> world \<Rightarrow> fault + world" where
  "on_heap f s = (case f (heap s) of Inl e \<Rightarrow> Inl e | Inr h \<Rightarrow> Inr (s\<lparr>heap := h\<rparr>))"

subsection \<open>The index\<close>

text \<open>Modelled from the spec: \<^verbatim>\<open>map_find\<close> of \<^verbatim>\<open>hashmap.h\<close>, "find(key) -> optional
  entry reference", a lookup by the key's characters.\<close>

definition map_find :: "map_t \<Rightarrow> string \<Rightarrow> addr option" where
  "map_find m k = map_option snd (map_of m k)"

text \<open>Modelled from the spec: \<^verbatim>\<open>map_insert\<close> of \<^verbatim>\<open>hashmap.h\<close>, "insert(key, entry)".
  The map keeps the key pointer it is given and reads the key's characters through it.\<close>

definition map_insert :: "addr option \<Rightarrow> addr \<Rightarrow> world \<Rightarrow> fault + world" where
  "map_insert key v s =
     (case get_string (heap s) key of
        Inl e \<Rightarrow> Inl e
      | Inr k \<Rightarrow>
          (case key of
             None \<Rightarrow> Inl InvalidPointer
           | Some kp \<Rightarrow> Inr (s\<lparr>map_tbl := (k, kp, v) # filter (\<lambda>x. fst x \<noteq> k) (map_tbl s)\<rparr>)))"

text \<open>\<^verbatim>\<open>free_cache_element\<close>, the value destructor given to \<^verbatim>\<open>map_create\<close>.\<close>

definition free_cache_element :: "addr option \<Rightarrow> heap \<Rightarrow> fault + heap" where
  "free_cache_element p h =
     (case p of
        None \<Rightarrow> Inr h
      | Some a \<Rightarrow>
          (case get_element h a of
             Inl e \<Rightarrow> Inl e
           | Inr el \<Rightarrow>
               (case free (data el) h of
                  Inl e \<Rightarrow> Inl e
                | Inr h1 \<Rightarrow> free (Some a) h1)))"

text \<open>Modelled from the spec: \<^verbatim>\<open>map_erase\<close> of \<^verbatim>\<open>hashmap.h\<close>, "erase(key) (removes
  the mapping and invokes cleanup: frees the stored key copy and invokes entry
  destruction)". The destructors are the ones \<^verbatim>\<open>cache_init\<close> passes to
  \<^verbatim>\<open>map_create\<close>: \<^verbatim>\<open>free\<close> for the key and \<^verbatim>\<open>free_cache_element\<close> for the value.
  Erasing a key that is not in the map does nothing.\<close>

definition map_erase :: "addr option \<Rightarrow> world \<Rightarrow> fault + world" where
  "map_erase key s =
     (case get_string (heap s) key of
        Inl e \<Rightarrow> Inl e
      | Inr k \<Rightarrow>
          (case map_of (map_tbl s) k of
             None \<Rightarrow> Inr s
           | Some (kp, v) \<Rightarrow>
               (case free (Some kp) (heap s) of
                  Inl e \<Rightarrow> Inl e
                | Inr h1 \<Rightarrow>
                    (case free_cache_element (Some v) h1 of
                       Inl e \<Rightarrow> Inl e
                     | Inr h2 \<Rightarrow>
                         Inr (s\<lparr>map_tbl := filter (\<lambda>x. fst x \<noteq> k) (map_tbl s), heap := h2\<rparr>)))))"

section \<open>List primitives\<close>

text \<open>\<^verbatim>\<open>detach_node_unlocked\<close>\<close>

definition detach_node_unlocked :: "addr option \<Rightarrow> world \<Rightarrow> fault + world" where
  "detach_node_unlocked element s =
     (case element of
        None \<Rightarrow> Inr s
      | Some a \<Rightarrow>
          (case get_element (heap s) a of
             Inl e \<Rightarrow> Inl e
           | Inr el \<Rightarrow>
               (case (case prev_ptr el of
                        Some p \<Rightarrow> on_heap (put_element p (\<lambda>x. x\<lparr>next_ptr := next_ptr el\<rparr>)) s
                      | None \<Rightarrow> Inr (s\<lparr>head := next_ptr el\<rparr>)) of
                  Inl e \<Rightarrow> Inl e
                | Inr s1 \<Rightarrow>
                    (case get_element (heap s1) a of
                       Inl e \<Rightarrow> Inl e
                     | Inr el1 \<Rightarrow>
                         (case next_ptr el1 of
                            Some n \<Rightarrow> on_heap (put_element n (\<lambda>x. x\<lparr>prev_ptr := prev_ptr el1\<rparr>)) s1
                          | None \<Rightarrow> Inr (s1\<lparr>tail := prev_ptr el1\<rparr>))))))"

text \<open>\<^verbatim>\<open>attach_node_to_head_unlocked\<close>\<close>

definition attach_node_to_head_unlocked :: "addr option \<Rightarrow> world \<Rightarrow> fault + world" where
  "attach_node_to_head_unlocked element s =
     (case element of
        None \<Rightarrow> Inr s
      | Some a \<Rightarrow>
          (case on_heap (put_element a (\<lambda>x. x\<lparr>next_ptr := head s, prev_ptr := None\<rparr>)) s of
             Inl e \<Rightarrow> Inl e
           | Inr s1 \<Rightarrow>
               (case (case head s1 of
                        Some hd_a \<Rightarrow> on_heap (put_element hd_a (\<lambda>x. x\<lparr>prev_ptr := Some a\<rparr>)) s1
                      | None \<Rightarrow> Inr s1) of
                  Inl e \<Rightarrow> Inl e
                | Inr s2 \<Rightarrow>
                    (let s3 = s2\<lparr>head := Some a\<rparr>
                     in Inr (if tail s3 = None then s3\<lparr>tail := Some a\<rparr> else s3)))))"

text \<open>\<^verbatim>\<open>remove_lru_element_unlocked\<close>\<close>

definition remove_lru_element_unlocked :: "world \<Rightarrow> fault + world" where
  "remove_lru_element_unlocked s =
     (case tail s of
        None \<Rightarrow> Inr s
      | Some lru \<Rightarrow>
          (case detach_node_unlocked (Some lru) s of
             Inl e \<Rightarrow> Inl e
           | Inr s1 \<Rightarrow>
               (case get_element (heap s1) lru of
                  Inl e \<Rightarrow> Inl e
                | Inr el \<Rightarrow>
                    map_erase (url el) (s1\<lparr>current_size := current_size s1 - len el\<rparr>))))"

section \<open>Public operations\<close>

text \<open>\<^verbatim>\<open>cache_init\<close>: \<open>map_ok\<close> tells whether \<^verbatim>\<open>map_create\<close> succeeds; when it does
  not, the process exits. The cache starts on the heap \<open>h\<close> of the process.\<close>

definition cache_init :: "bool \<Rightarrow> heap \<Rightarrow> fault + world" where
  "cache_init map_ok h =
     (if map_ok
      then Inr \<lparr>map_tbl = [], head = None, tail = None, current_size = 0, mutex = False, heap = h\<rparr>
      else Inl ProcessExit)"

text \<open>\<^verbatim>\<open>cache_find\<close>: the result is the pointer returned and the world left behind;
  the outer \<open>None\<close> is a call that does not return.\<close>

definition cache_find :: "string option \<Rightarrow> world \<Rightarrow> (fault + addr option \<times> world) option" where
  "cache_find url' s =
     (case url' of
        None \<Rightarrow> Some (Inr (None, s))
      | Some u \<Rightarrow>
          (case mutex_lock s of
             None \<Rightarrow> None
           | Some s1 \<Rightarrow>
               (let element = map_find (map_tbl s1) u
                in case (case element of
                           Some a \<Rightarrow>
                             (case detach_node_unlocked element s1 of
                                Inl e \<Rightarrow> Inl e
                              | Inr s2 \<Rightarrow> attach_node_to_head_unlocked element s2)
                         | None \<Rightarrow> Inr s1) of
                     Inl e \<Rightarrow> Some (Inl e)
                   | Inr s3 \<Rightarrow> Some (Inr (element, mutex_unlock s3)))))"

text \<open>The eviction loop of \<^verbatim>\<open>cache_add\<close>, the same in both branches:
  \<^verbatim>\<open>while (g_cache.current_size + length > MAX_CACHE_SIZE) remove_lru_element_unlocked();\<close>
  A loop that runs forever has the value \<open>None\<close>.\<close>

partial_function (option) evict_loop :: "size_t \<Rightarrow> world \<Rightarrow> (fault + world) option" where
  "evict_loop length' s =
     (if MAX_CACHE_SIZE < current_size s + length'
      then (case remove_lru_element_unlocked s of
              Inl e \<Rightarrow> Some (Inl e)
            | Inr s1 \<Rightarrow> evict_loop length' s1)
      else Some (Inr s))"

declare evict_loop.simps [code]

text \<open>The allocator's choices for one call of \<^verbatim>\<open>cache_add\<close>, one for each allocation
  site: \<^verbatim>\<open>calloc\<close> of the entry, \<^verbatim>\<open>strdup\<close> of the key, \<^verbatim>\<open>malloc\<close> of the payload
  (the only one the update branch reaches).\<close>

record alloc_plan =
  calloc_at :: "addr option"
  strdup_at :: "addr option"
  malloc_at :: "addr option"

text \<open>CASE 1 of \<^verbatim>\<open>cache_add\<close>, from the subtraction of the old length to the end of the
  branch; \<open>a\<close> is \<^verbatim>\<open>existing_element\<close>. The lock is held.\<close>

definition cache_add_update ::
  "alloc_plan \<Rightarrow> addr \<Rightarrow> byte list \<Rightarrow> size_t \<Rightarrow> world \<Rightarrow> (fault + world) option" where
  "cache_add_update plan a data' length' s =
     (case get_element (heap s) a of
        Inl e \<Rightarrow> Some (Inl e)
      | Inr el \<Rightarrow>
          (case evict_loop length' (s\<lparr>current_size := current_size s - len el\<rparr>) of
             None \<Rightarrow> None
           | Some (Inl e) \<Rightarrow> Some (Inl e)
           | Some (Inr s1) \<Rightarrow>
               Some
                 (case detach_node_unlocked (Some a) s1 of
                    Inl e \<Rightarrow> Inl e
                  | Inr s2 \<Rightarrow>
                      (case get_element (heap s2) a of
                         Inl e \<Rightarrow> Inl e
                       | Inr el2 \<Rightarrow>
                           (case free (data el2) (heap s2) of
                              Inl e \<Rightarrow> Inl e
                            | Inr h3 \<Rightarrow>
                                (case malloc (malloc_at plan) length' h3 of
                                   (p, h4) \<Rightarrow>
                                     (case put_element a (\<lambda>x. x\<lparr>data := p\<rparr>) h4 of
                                        Inl e \<Rightarrow> Inl e
                                      | Inr h5 \<Rightarrow>
                                          if p = None
                                          then (case map_erase (url el2) (s2\<lparr>heap := h5\<rparr>) of
                                                  Inl e \<Rightarrow> Inl e
                                                | Inr s6 \<Rightarrow> Inr (mutex_unlock s6))
                                          else (case memcpy p data' length' h5 of
                                                  Inl e \<Rightarrow> Inl e
                                                | Inr h6 \<Rightarrow>
                                                    (case put_element a (\<lambda>x. x\<lparr>len := length'\<rparr>) h6 of
                                                       Inl e \<Rightarrow> Inl e
                                                     | Inr h7 \<Rightarrow>
                                                         (case attach_node_to_head_unlocked (Some a)
                                                                 (s2\<lparr>current_size := current_size s2 + length',
                                                                     heap := h7\<rparr>) of
                                                            Inl e \<Rightarrow> Inl e
                                                          | Inr s8 \<Rightarrow> Inr (mutex_unlock s8)))))))))))"

text \<open>CASE 2 of \<^verbatim>\<open>cache_add\<close>: the key is new. The lock is held.\<close>

definition cache_add_insert ::
  "alloc_plan \<Rightarrow> string \<Rightarrow> byte list \<Rightarrow> size_t \<Rightarrow> world \<Rightarrow> (fault + world) option" where
  "cache_add_insert plan u data' length' s =
     (case evict_loop length' s of
        None \<Rightarrow> None
      | Some (Inl e) \<Rightarrow> Some (Inl e)
      | Some (Inr s1) \<Rightarrow>
          Some
            (case calloc_element (calloc_at plan) (heap s1) of
               (None, h2) \<Rightarrow> Inr (mutex_unlock (s1\<lparr>heap := h2\<rparr>))
             | (Some ne, h2) \<Rightarrow>
                 (case strdup (strdup_at plan) u h2 of
                    (up, h3) \<Rightarrow>
                      (case put_element ne (\<lambda>x. x\<lparr>url := up\<rparr>) h3 of
                         Inl e \<Rightarrow> Inl e
                       | Inr h4 \<Rightarrow>
                           (case malloc (malloc_at plan) length' h4 of
                              (dp, h5) \<Rightarrow>
                                (case put_element ne (\<lambda>x. x\<lparr>data := dp\<rparr>) h5 of
                                   Inl e \<Rightarrow> Inl e
                                 | Inr h6 \<Rightarrow>
                                     if up = None \<or> dp = None
                                     then (case free up h6 of
                                             Inl e \<Rightarrow> Inl e
                                           | Inr h7 \<Rightarrow>
                                               (case free dp h7 of
                                                  Inl e \<Rightarrow> Inl e
                                                | Inr h8 \<Rightarrow>
                                                    (case free (Some ne) h8 of
                                                       Inl e \<Rightarrow> Inl e
                                                     | Inr h9 \<Rightarrow> Inr (mutex_unlock (s1\<lparr>heap := h9\<rparr>)))))
                                     else (case memcpy dp data' length' h6 of
                                             Inl e \<Rightarrow> Inl e
                                           | Inr h7 \<Rightarrow>
                                               (case put_element ne (\<lambda>x. x\<lparr>len := length'\<rparr>) h7 of
                                                  Inl e \<Rightarrow> Inl e
                                                | Inr h8 \<Rightarrow>
                                                    (case attach_node_to_head_unlocked (Some ne) (s1\<lparr>heap := h8\<rparr>) of
                                                       Inl e \<Rightarrow> Inl e
                                                     | Inr s9 \<Rightarrow>
                                                         (case map_insert up ne s9 of
                                                            Inl e \<Rightarrow> Inl e
                                                          | Inr s10 \<Rightarrow>
                                                              Inr (mutex_unlock
                                                                     (s10\<lparr>current_size := current_size s10 + length'\<rparr>))))))))))))"

text \<open>\<^verbatim>\<open>cache_add\<close>: \<open>url'\<close> and \<open>data'\<close> are the caller's key and buffer (\<open>None\<close> for
  \<^verbatim>\<open>NULL\<close>), \<open>length'\<close> the length passed.\<close>

definition cache_add ::
  "alloc_plan \<Rightarrow> string option \<Rightarrow> byte list option \<Rightarrow> size_t \<Rightarrow> world \<Rightarrow> (fault + world) option" where
  "cache_add plan url' data' length' s =
     (case url' of
        None \<Rightarrow> Some (Inr s)
      | Some u \<Rightarrow>
          (case data' of
             None \<Rightarrow> Some (Inr s)
           | Some d \<Rightarrow>
               if length' = 0 \<or> MAX_CACHE_SIZE < length' then Some (Inr s)
               else (case mutex_lock s of
                       None \<Rightarrow> None
                     | Some s1 \<Rightarrow>
                         (case map_find (map_tbl s1) u of
                            Some a \<Rightarrow> cache_add_update plan a d length' s1
                          | None \<Rightarrow> cache_add_insert plan u d length' s1))))"

section \<open>Sequences of calls\<close>

text \<open>A client's calls, one after the other from one thread, stopping at the first fault
  or at a call that does not return.\<close>

datatype op =
    Add alloc_plan "string option" "byte list option" size_t
  | Find "string option"

fun run :: "op list \<Rightarrow> world \<Rightarrow> (fault + world) option" where
  "run [] s = Some (Inr s)"
| "run (Add plan u d n # ops) s =
     (case cache_add plan u d n s of
        None \<Rightarrow> None
      | Some (Inl e) \<Rightarrow> Some (Inl e)
      | Some (Inr s1) \<Rightarrow> run ops s1)"
| "run (Find u # ops) s =
     (case cache_find u s of
        None \<Rightarrow> None
      | Some (Inl e) \<Rightarrow> Some (Inl e)
      | Some (Inr (r, s1)) \<Rightarrow> run ops s1)"

section \<open>The shape of a well-formed cache\<close>

text \<open>
  The recency list as a list of addresses, most recently used first.
  \<open>dseg h pv p as l q\<close>: following \<^verbatim>\<open>next\<close> from \<open>p\<close> visits exactly the entries
  \<open>as\<close> and then reaches \<open>q\<close>; the \<^verbatim>\<open>prev\<close> of the first is \<open>pv\<close>, each later
  \<^verbatim>\<open>prev\<close> points to the entry before, and \<open>l\<close> is the last entry visited (\<open>pv\<close> when
  there is none). The whole list is \<open>dseg h None head as tail None\<close>.
\<close>

fun dseg :: "heap \<Rightarrow> addr option \<Rightarrow> addr option \<Rightarrow> addr list \<Rightarrow> addr option \<Rightarrow> addr option \<Rightarrow> bool" where
  "dseg h pv p [] l q = (p = q \<and> l = pv)"
| "dseg h pv p (a # as) l q =
     (p = Some a \<and>
      (case h a of
         Some (Element e) \<Rightarrow> prev_ptr e = pv \<and> dseg h (Some a) (next_ptr e) as l q
       | _ \<Rightarrow> False))"

text \<open>What an element stores, read through the heap; \<open>key_of\<close> and \<open>payload_of\<close> follow
  the \<^verbatim>\<open>url\<close> and \<^verbatim>\<open>data\<close> pointers.\<close>

definition elem_len :: "heap \<Rightarrow> addr \<Rightarrow> size_t" where
  "elem_len h a = (case h a of Some (Element e) \<Rightarrow> len e | _ \<Rightarrow> 0)"

definition url_of :: "heap \<Rightarrow> addr \<Rightarrow> addr option" where
  "url_of h a = (case h a of Some (Element e) \<Rightarrow> url e | _ \<Rightarrow> None)"

definition data_of :: "heap \<Rightarrow> addr \<Rightarrow> addr option" where
  "data_of h a = (case h a of Some (Element e) \<Rightarrow> data e | _ \<Rightarrow> None)"

definition string_at :: "heap \<Rightarrow> addr option \<Rightarrow> string option" where
  "string_at h p =
     (case p of
        None \<Rightarrow> None
      | Some u \<Rightarrow> (case h u of Some (CString k) \<Rightarrow> Some k | _ \<Rightarrow> None))"

definition bytes_at :: "heap \<Rightarrow> addr option \<Rightarrow> byte list option" where
  "bytes_at h p =
     (case p of
        None \<Rightarrow> None
      | Some d \<Rightarrow> (case h d of Some (Buffer bs) \<Rightarrow> Some bs | _ \<Rightarrow> None))"

definition key_of :: "heap \<Rightarrow> addr \<Rightarrow> string option" where
  "key_of h a = string_at h (url_of h a)"

definition payload_of :: "heap \<Rightarrow> addr \<Rightarrow> byte list option" where
  "payload_of h a = bytes_at h (data_of h a)"

definition entry_view ::
  "heap \<Rightarrow> addr \<Rightarrow> addr option \<times> string option \<times> addr option \<times> byte list option \<times> size_t" where
  "entry_view h a = (url_of h a, key_of h a, data_of h a, payload_of h a, elem_len h a)"

text \<open>Two heaps with the same objects up to the \<^verbatim>\<open>next\<close> and \<^verbatim>\<open>prev\<close> fields.\<close>

definition strip :: "obj \<Rightarrow> obj" where
  "strip ob = (case ob of Element e \<Rightarrow> Element (e\<lparr>next_ptr := None, prev_ptr := None\<rparr>) | _ \<Rightarrow> ob)"

definition same_content :: "heap \<Rightarrow> heap \<Rightarrow> bool" where
  "same_content h h' = (\<forall>b. map_option strip (h' b) = map_option strip (h b))"

text \<open>The index and the entries \<open>es\<close> agree: keys are unique, every mapping leads to
  an entry of \<open>es\<close> under that entry's own key string, and every entry of \<open>es\<close> is
  mapped.\<close>

definition index_ok :: "heap \<Rightarrow> map_t \<Rightarrow> addr list \<Rightarrow> bool" where
  "index_ok h m es =
     (distinct (map fst m) \<and>
      (\<forall>(k, u, a)\<in>set m. a \<in> set es \<and> url_of h a = Some u \<and> key_of h a = Some k) \<and>
      (\<forall>a\<in>set es. a \<in> set (map (\<lambda>(k, u, a). a) m)))"

text \<open>Every entry owns a live payload buffer of exactly \<^verbatim>\<open>len\<close> bytes, \<^verbatim>\<open>len\<close> is
  positive, and no two entries share a buffer.\<close>

definition payload_ok :: "heap \<Rightarrow> addr \<Rightarrow> bool" where
  "payload_ok h a =
     (case payload_of h a of
        None \<Rightarrow> False
      | Some bs \<Rightarrow> length bs = unat (elem_len h a) \<and> elem_len h a \<noteq> 0)"

definition payloads_ok :: "heap \<Rightarrow> addr list \<Rightarrow> bool" where
  "payloads_ok h es =
     ((\<forall>a\<in>set es. payload_ok h a) \<and>
      (\<forall>a\<in>set es. \<forall>b\<in>set es. data_of h a = data_of h b \<longrightarrow> a = b))"

text \<open>The exact sum of the \<^verbatim>\<open>len\<close> fields, over a list of entries and over the entries
  the index leads to.\<close>

definition total_len :: "heap \<Rightarrow> addr list \<Rightarrow> nat" where
  "total_len h es = sum_list (map (\<lambda>a. unat (elem_len h a)) es)"

definition index_entries :: "map_t \<Rightarrow> addr set" where
  "index_entries m = set (map (\<lambda>(k, u, a). a) m)"

definition index_total :: "world \<Rightarrow> nat" where
  "index_total s = (\<Sum>a\<in>index_entries (map_tbl s). unat (elem_len (heap s) a))"

text \<open>\<open>struct_inv s es\<close>: the list, the index and the payloads of \<open>s\<close> are well formed and
  the recency list is \<open>es\<close>. \<open>cache_inv s es\<close> adds the size invariant and that the lock
  is free: the state between two calls.\<close>

definition struct_inv :: "world \<Rightarrow> addr list \<Rightarrow> bool" where
  "struct_inv s es =
     (dseg (heap s) None (head s) es (tail s) None \<and> distinct es \<and>
      index_ok (heap s) (map_tbl s) es \<and> payloads_ok (heap s) es)"

definition cache_inv :: "world \<Rightarrow> addr list \<Rightarrow> bool" where
  "cache_inv s es =
     (struct_inv s es \<and> unat (current_size s) = total_len (heap s) es \<and>
      current_size s \<le> MAX_CACHE_SIZE \<and> \<not> mutex s)"

text \<open>Whether the allocations of a call succeed, given the heap \<open>h\<close> left by the eviction
  loop. On the insert branch all three must: each offered address is free and they differ.
  On the update branch the one \<^verbatim>\<open>malloc\<close> runs after the old buffer of the entry \<open>a\<close>
  has been freed, so that buffer's address may be handed out again.\<close>

definition insert_allocs_ok :: "alloc_plan \<Rightarrow> heap \<Rightarrow> bool" where
  "insert_allocs_ok plan h =
     (case (calloc_at plan, strdup_at plan, malloc_at plan) of
        (Some ne, Some up, Some dp) \<Rightarrow>
          h ne = None \<and> h up = None \<and> h dp = None \<and> ne \<noteq> up \<and> ne \<noteq> dp \<and> up \<noteq> dp
      | _ \<Rightarrow> False)"

definition update_alloc_ok :: "alloc_plan \<Rightarrow> heap \<Rightarrow> addr \<Rightarrow> bool" where
  "update_alloc_ok plan h a =
     (case malloc_at plan of None \<Rightarrow> False | Some c \<Rightarrow> h c = None \<or> Some c = data_of h a)"

text \<open>The state in which the eviction loop of \<^verbatim>\<open>cache_add\<close> starts, for the key \<open>k\<close>:
  the lock is held, and on the update branch the old length of the entry has been
  subtracted from \<^verbatim>\<open>current_size\<close>.\<close>

definition loop_entry :: "string \<Rightarrow> world \<Rightarrow> world" where
  "loop_entry k s =
     (case map_find (map_tbl s) k of
        None \<Rightarrow> s\<lparr>mutex := True\<rparr>
      | Some a \<Rightarrow> s\<lparr>mutex := True, current_size := current_size s - elem_len (heap s) a\<rparr>)"

text \<open>What a result shows of \<^verbatim>\<open>g_cache\<close>: the index, \<^verbatim>\<open>head\<close>, \<^verbatim>\<open>tail\<close>,
  \<^verbatim>\<open>current_size\<close> and the lock.\<close>

definition fields_of :: "world \<Rightarrow> map_t \<times> addr option \<times> addr option \<times> size_t \<times> bool" where
  "fields_of s = (map_tbl s, head s, tail s, current_size s, mutex s)"

definition observe ::
  "(fault + world) option \<Rightarrow> (fault + map_t \<times> addr option \<times> addr option \<times> size_t \<times> bool) option" where
  "observe r = map_option (map_sum id fields_of) r"

text \<open>The states the eviction loop passes through: the state it starts in, and the state
  after each call of \<^verbatim>\<open>remove_lru_element_unlocked\<close> that the loop makes.\<close>

inductive evict_visits :: "size_t \<Rightarrow> world \<Rightarrow> world \<Rightarrow> bool" for n :: size_t where
  start: "evict_visits n s s"
| step: "MAX_CACHE_SIZE < current_size s + n \<Longrightarrow> remove_lru_element_unlocked s = Inr s1 \<Longrightarrow>
         evict_visits n s1 t \<Longrightarrow> evict_visits n s t"

text \<open>Whether the address \<open>a\<close> holds a live object.\<close>

definition entry_live :: "addr \<Rightarrow> world \<Rightarrow> bool" where
  "entry_live a s = (heap s a \<noteq> None)"

text \<open>\<^verbatim>\<open>current_size\<close> next to the exact sum over the index.\<close>

definition sizes_of :: "world \<Rightarrow> size_t \<times> nat" where
  "sizes_of s = (current_size s, index_total s)"

section \<open>Example states\<close>

text \<open>The cache after \<^verbatim>\<open>cache_init\<close> in a process with nothing else on the heap, and
  allocator choices that offer three consecutive addresses.\<close>

definition empty_cache :: world where
  "empty_cache =
     \<lparr>map_tbl = [], head = None, tail = None, current_size = 0, mutex = False, heap = (\<lambda>_. None)\<rparr>"

definition plan_at :: "addr \<Rightarrow> alloc_plan" where
  "plan_at n = \<lparr>calloc_at = Some n, strdup_at = Some (n + 1), malloc_at = Some (n + 2)\<rparr>"

text \<open>The cache after \<^verbatim>\<open>cache_add("a", ..., 10)\<close> and \<^verbatim>\<open>cache_add("b", ..., 90)\<close> on
  \<open>empty_cache\<close>, with the allocator handing out the addresses 0 to 5 in order: "b" is
  the head, "a" the tail, and the cache is full.\<close>

definition two_entries :: world where
  "two_entries =
     \<lparr>map_tbl = [(''b'', 4, 3), (''a'', 1, 0)], head = Some 3, tail = Some 0, current_size = 100,
      mutex = False,
      heap = (\<lambda>_. None)
        (0 \<mapsto> Element \<lparr>url = Some 1, data = Some 2, len = 10, next_ptr = None, prev_ptr = Some 3\<rparr>,
         1 \<mapsto> CString ''a'',
         2 \<mapsto> Buffer (replicate 10 1),
         3 \<mapsto> Element \<lparr>url = Some 4, data = Some 5, len = 90, next_ptr = Some 0, prev_ptr = None\<rparr>,
         4 \<mapsto> CString ''b'',
         5 \<mapsto> Buffer (replicate 90 2))\<rparr>"

definition fill_two :: "op list" where
  "fill_two =
     [Add (plan_at 0) (Some ''a'') (Some (replicate 10 1)) 10,
      Add (plan_at 3) (Some ''b'') (Some (replicate 90 2)) 90]"

definition b_alone :: world where
  "b_alone =
     \<lparr>map_tbl = [(''b'', 4, 3)], head = Some 3, tail = Some 3, current_size = 0, mutex = True,
      heap = (\<lambda>_. None)
        (3 \<mapsto> Element \<lparr>url = Some 4, data = Some 5, len = 90, next_ptr = None, prev_ptr = None\<rparr>,
         4 \<mapsto> CString ''b'',
         5 \<mapsto> Buffer (replicate 90 2))\<rparr>"

section \<open>Lemmas about the list primitives and the index\<close>

lemma get_element_Inr: "get_element h a = Inr e \<longleftrightarrow> h a = Some (Element e)"
  by (auto simp: get_element_def split: option.splits obj.splits)

lemma get_element_ok: "h a = Some (Element e) \<Longrightarrow> get_element h a = Inr e"
  by (simp add: get_element_def)

lemma put_element_ok:
  "h a = Some (Element e) \<Longrightarrow> put_element a f h = Inr (h(a \<mapsto> Element (f e)))"
  by (simp add: put_element_def)

lemma dseg_Cons_iff:
  "dseg h pv p (a # as) l q =
     (p = Some a \<and> (\<exists>e. h a = Some (Element e) \<and> prev_ptr e = pv \<and> dseg h (Some a) (next_ptr e) as l q))"
  by (auto split: option.splits obj.splits)

declare dseg.simps(2) [simp del]
declare dseg_Cons_iff [simp]

lemma dseg_cong:
  "(\<And>a. a \<in> set as \<Longrightarrow> h' a = h a) \<Longrightarrow> dseg h' pv p as l q = dseg h pv p as l q"
  by (induction as arbitrary: pv p) (auto split: option.splits obj.splits)

lemma dseg_upd_other:
  "a \<notin> set as \<Longrightarrow> dseg (h(a := v)) pv p as l q = dseg h pv p as l q"
  by (rule dseg_cong) auto

lemma dseg_append:
  "dseg h pv p (xs @ ys) l q = (\<exists>m l'. dseg h pv p xs l' m \<and> dseg h l' m ys l q)"
  by (induction xs arbitrary: pv p) (auto split: option.splits obj.splits)

lemma dseg_last: "dseg h pv p xs l q \<Longrightarrow> l = (if xs = [] then pv else Some (last xs))"
  by (induction xs arbitrary: pv p) (auto split: option.splits obj.splits)

lemma dseg_first: "dseg h pv p xs l q \<Longrightarrow> p = (if xs = [] then q else Some (hd xs))"
  by (cases xs) auto

lemma dseg_live: "dseg h pv p xs l q \<Longrightarrow> a \<in> set xs \<Longrightarrow> \<exists>e. h a = Some (Element e)"
  by (induction xs arbitrary: pv p) (auto split: option.splits obj.splits)

lemma dseg_set_next:
  "dseg h pv p xs l q \<Longrightarrow> distinct xs \<Longrightarrow> xs \<noteq> [] \<Longrightarrow> h (last xs) = Some (Element e) \<Longrightarrow>
   dseg (h(last xs \<mapsto> Element (e\<lparr>next_ptr := q'\<rparr>))) pv p xs l q'"
proof (induction xs arbitrary: pv p)
  case Nil
  then show ?case by simp
next
  case (Cons a as)
  show ?case
  proof (cases "as = []")
    case True
    with Cons.prems show ?thesis by (auto split: option.splits obj.splits)
  next
    case False
    with Cons.prems have ne: "a \<noteq> last as" by auto
    from Cons.prems False obtain ea where
      ea: "h a = Some (Element ea)" "prev_ptr ea = pv" "p = Some a"
      and rest: "dseg h (Some a) (next_ptr ea) as l q"
      by auto
    from Cons.prems False have "h (last as) = Some (Element e)" "distinct as" by auto
    from Cons.IH [OF rest this(2) False this(1)]
    show ?thesis using ea ne False by simp
  qed
qed

lemma dseg_set_prev:
  "dseg h pv p (n # ys) l q \<Longrightarrow> n \<notin> set ys \<Longrightarrow> h n = Some (Element e) \<Longrightarrow>
   dseg (h(n \<mapsto> Element (e\<lparr>prev_ptr := pv'\<rparr>))) pv' p (n # ys) l q"
  by (auto simp: dseg_upd_other)

lemma same_content_refl: "same_content h h"
  by (simp add: same_content_def)

lemma same_content_trans: "same_content h h1 \<Longrightarrow> same_content h1 h2 \<Longrightarrow> same_content h h2"
  by (simp add: same_content_def)

lemma same_content_links:
  "h p = Some (Element e) \<Longrightarrow>
   url e' = url e \<Longrightarrow> data e' = data e \<Longrightarrow> len e' = len e \<Longrightarrow>
   same_content h (h(p \<mapsto> Element e'))"
  by (auto simp: same_content_def strip_def)

lemma on_heap_put_ok:
  "heap s p = Some (Element e) \<Longrightarrow>
   on_heap (put_element p f) s = Inr (s\<lparr>heap := (heap s)(p \<mapsto> Element (f e))\<rparr>)"
  by (simp add: on_heap_def put_element_def)

lemma detach_ok:
  assumes seg: "dseg (heap s) None (head s) (xs @ a # ys) (tail s) None"
    and dist: "distinct (xs @ a # ys)"
  shows "\<exists>s'. detach_node_unlocked (Some a) s = Inr s' \<and>
     dseg (heap s') None (head s') (xs @ ys) (tail s') None \<and>
     same_content (heap s) (heap s') \<and> heap s' a = heap s a \<and>
     map_tbl s' = map_tbl s \<and> current_size s' = current_size s \<and> mutex s' = mutex s"
proof -
  from seg obtain l e where
    sx: "dseg (heap s) None (head s) xs l (Some a)"
    and ha: "heap s a = Some (Element e)" and pe: "prev_ptr e = l"
    and sy: "dseg (heap s) (Some a) (next_ptr e) ys (tail s) None"
    by (auto simp: dseg_append)
  have l: "l = (if xs = [] then None else Some (last xs))"
    using dseg_last [OF sx] .
  have nx: "next_ptr e = (if ys = [] then None else Some (hd ys))"
    using dseg_first [OF sy] .
  define step1 where "step1 =
    (case prev_ptr e of
       Some p \<Rightarrow> on_heap (put_element p (\<lambda>x. x\<lparr>next_ptr := next_ptr e\<rparr>)) s
     | None \<Rightarrow> Inr (s\<lparr>head := next_ptr e\<rparr>))"
  have "\<exists>s1. step1 = Inr s1 \<and> dseg (heap s1) None (head s1) xs l (next_ptr e) \<and>
          same_content (heap s) (heap s1) \<and> heap s1 a = heap s a \<and>
          (\<forall>b\<in>set ys. heap s1 b = heap s b) \<and> tail s1 = tail s \<and>
          map_tbl s1 = map_tbl s \<and> current_size s1 = current_size s \<and> mutex s1 = mutex s"
  proof (cases "xs = []")
    case True
    with sx l pe show ?thesis
      by (simp add: step1_def same_content_refl)
  next
    case False
    then have "last xs \<in> set xs" by simp
    with dseg_live [OF sx] obtain ep where ep: "heap s (last xs) = Some (Element ep)"
      by blast
    have d: "distinct xs" "last xs \<noteq> a" "last xs \<notin> set ys"
      using dist \<open>last xs \<in> set xs\<close> by auto
    have "dseg ((heap s)(last xs \<mapsto> Element (ep\<lparr>next_ptr := next_ptr e\<rparr>))) None (head s) xs l (next_ptr e)"
      by (rule dseg_set_next [OF sx d(1) False ep])
    moreover have "same_content (heap s) ((heap s)(last xs \<mapsto> Element (ep\<lparr>next_ptr := next_ptr e\<rparr>)))"
      using ep by (intro same_content_links [where e = ep]) simp_all
    ultimately show ?thesis
      using False l pe ep d by (auto simp: step1_def on_heap_put_ok)
  qed
  then obtain s1 where s1: "step1 = Inr s1"
    and sx1: "dseg (heap s1) None (head s1) xs l (next_ptr e)"
    and sc1: "same_content (heap s) (heap s1)" and ha1: "heap s1 a = heap s a"
    and ys1: "\<forall>b\<in>set ys. heap s1 b = heap s b" and tl1: "tail s1 = tail s"
    and fr1: "map_tbl s1 = map_tbl s" "current_size s1 = current_size s" "mutex s1 = mutex s"
    by blast
  have sy1: "dseg (heap s1) (Some a) (next_ptr e) ys (tail s) None"
    using sy ys1 by (simp add: dseg_cong [of ys "heap s1" "heap s"])
  define step2 where "step2 =
    (case next_ptr e of
       Some n \<Rightarrow> on_heap (put_element n (\<lambda>x. x\<lparr>prev_ptr := prev_ptr e\<rparr>)) s1
     | None \<Rightarrow> Inr (s1\<lparr>tail := prev_ptr e\<rparr>))"
  have det: "detach_node_unlocked (Some a) s = step2"
    using ha ha1 s1 by (simp add: detach_node_unlocked_def get_element_ok step1_def [symmetric] step2_def)
  have "\<exists>s'. step2 = Inr s' \<and> dseg (heap s') None (head s') (xs @ ys) (tail s') None \<and>
          same_content (heap s1) (heap s') \<and> heap s' a = heap s1 a \<and>
          map_tbl s' = map_tbl s1 \<and> current_size s' = current_size s1 \<and> mutex s' = mutex s1"
  proof (cases ys)
    case Nil
    with sx1 sy1 nx pe show ?thesis
      by (simp add: step2_def same_content_refl)
  next
    case (Cons n ys')
    with sy1 obtain en where en: "heap s1 n = Some (Element en)" and nxe: "next_ptr e = Some n"
      by auto
    have d: "n \<notin> set ys'" "n \<notin> set xs" "n \<noteq> a"
      using dist Cons by auto
    let ?h = "(heap s1)(n \<mapsto> Element (en\<lparr>prev_ptr := l\<rparr>))"
    have "dseg ?h l (Some n) (n # ys') (tail s) None"
      using dseg_set_prev [where h = "heap s1" and n = n and ys = ys' and e = en and pv' = l
          and pv = "Some a" and p = "Some n" and l = "tail s" and q = None]
        sy1 Cons nxe d(1) en by simp
    moreover have "dseg ?h None (head s1) xs l (Some n)"
      using sx1 nxe d(2) by (simp add: dseg_upd_other)
    ultimately have "dseg ?h None (head s1) (xs @ ys) (tail s) None"
      unfolding Cons dseg_append by blast
    moreover have "same_content (heap s1) ?h"
      using en by (intro same_content_links [where e = en]) simp_all
    ultimately show ?thesis
      using nxe pe en d tl1 by (simp add: step2_def on_heap_put_ok)
  qed
  with det sc1 ha1 fr1 show ?thesis
    by (auto intro: same_content_trans)
qed

lemma attach_ok:
  assumes seg: "dseg (heap s) None (head s) es (tail s) None"
    and dist: "distinct es" and fresh: "a \<notin> set es"
    and ha: "heap s a = Some (Element e)"
  shows "\<exists>s'. attach_node_to_head_unlocked (Some a) s = Inr s' \<and>
     dseg (heap s') None (head s') (a # es) (tail s') None \<and>
     same_content (heap s) (heap s') \<and>
     map_tbl s' = map_tbl s \<and> current_size s' = current_size s \<and> mutex s' = mutex s"
proof -
  let ?e1 = "e\<lparr>next_ptr := head s, prev_ptr := None\<rparr>"
  let ?h1 = "(heap s)(a \<mapsto> Element ?e1)"
  have st1: "on_heap (put_element a (\<lambda>x. x\<lparr>next_ptr := head s, prev_ptr := None\<rparr>)) s
               = Inr (s\<lparr>heap := ?h1\<rparr>)"
    using ha by (simp add: on_heap_put_ok)
  have sc1: "same_content (heap s) ?h1"
    using ha by (intro same_content_links [where e = e]) simp_all
  have seg1: "dseg ?h1 None (head s) es (tail s) None"
    using seg fresh by (simp add: dseg_upd_other)
  show ?thesis
  proof (cases es)
    case Nil
    with seg have "head s = None" "tail s = None" by simp_all
    then show ?thesis
      using st1 sc1 Nil by (simp add: attach_node_to_head_unlocked_def)
  next
    case (Cons b es')
    have d: "b \<notin> set es'" "a \<noteq> b"
      using dist fresh Cons by auto
    from seg Cons obtain eb0 where hd: "head s = Some b" and eb0: "heap s b = Some (Element eb0)"
      by auto
    with d obtain eb where eb: "?h1 b = Some (Element eb)"
      by simp
    have tl: "tail s \<noteq> None"
      using dseg_last [OF seg] Cons by simp
    let ?h2 = "?h1(b \<mapsto> Element (eb\<lparr>prev_ptr := Some a\<rparr>))"
    have "dseg ?h2 (Some a) (Some b) (b # es') (tail s) None"
      using dseg_set_prev [where h = ?h1 and n = b and ys = es' and e = eb and pv' = "Some a"
          and pv = None and p = "Some b" and l = "tail s" and q = None]
        seg1 Cons hd d(1) eb by simp
    then have "dseg ?h2 None (Some a) (a # es) (tail s) None"
      using d(2) hd Cons by simp
    moreover have "same_content ?h1 ?h2"
      using eb by (intro same_content_links [where e = eb]) simp_all
    with sc1 have "same_content (heap s) ?h2"
      by (rule same_content_trans)
    moreover have "on_heap (put_element b (\<lambda>x. x\<lparr>prev_ptr := Some a\<rparr>)) (s\<lparr>heap := ?h1\<rparr>)
                     = Inr (s\<lparr>heap := ?h2\<rparr>)"
      using eb by (simp add: on_heap_put_ok)
    ultimately show ?thesis
      using st1 hd tl by (auto simp: attach_node_to_head_unlocked_def Let_def simp del: dseg_Cons_iff)
  qed
qed

lemma accessors_cong:
  "h' a = h a \<Longrightarrow> elem_len h' a = elem_len h a"
  "h' a = h a \<Longrightarrow> url_of h' a = url_of h a"
  "h' a = h a \<Longrightarrow> data_of h' a = data_of h a"
  by (simp_all add: elem_len_def url_of_def data_of_def)

lemma string_at_cong: "(\<And>u. p = Some u \<Longrightarrow> h' u = h u) \<Longrightarrow> string_at h' p = string_at h p"
  by (cases p) (simp_all add: string_at_def)

lemma bytes_at_cong: "(\<And>u. p = Some u \<Longrightarrow> h' u = h u) \<Longrightarrow> bytes_at h' p = bytes_at h p"
  by (cases p) (simp_all add: bytes_at_def)

lemma strip_eq_Element:
  "strip x = strip (Element e) \<Longrightarrow> \<exists>e'. x = Element e' \<and> url e' = url e \<and> data e' = data e \<and> len e' = len e"
proof (cases x)
  case (Element e')
  moreover assume "strip x = strip (Element e)"
  ultimately have "e'\<lparr>next_ptr := None, prev_ptr := None\<rparr> = e\<lparr>next_ptr := None, prev_ptr := None\<rparr>"
    by (simp add: strip_def)
  then have "url e' = url e \<and> data e' = data e \<and> len e' = len e"
    by (cases e'; cases e) simp
  with Element show ?thesis by simp
qed (simp_all add: strip_def)

lemma strip_other [simp]: "strip (CString k) = CString k" "strip (Buffer bs) = Buffer bs"
  by (simp_all add: strip_def)

lemma strip_eq_CString [simp]:
  "strip x = CString k \<longleftrightarrow> x = CString k" "CString k = strip x \<longleftrightarrow> x = CString k"
  by (cases x; auto simp: strip_def)+

lemma strip_eq_Buffer [simp]:
  "strip x = Buffer k \<longleftrightarrow> x = Buffer k" "Buffer k = strip x \<longleftrightarrow> x = Buffer k"
  by (cases x; auto simp: strip_def)+

lemma same_content_at: "same_content h h' \<Longrightarrow> map_option strip (h' b) = map_option strip (h b)"
  by (simp add: same_content_def)

lemma same_content_None: "same_content h h' \<Longrightarrow> h' b = None \<longleftrightarrow> h b = None"
  by (drule same_content_at [where b = b]) (cases "h b"; cases "h' b"; simp)

lemma same_content_CString: "same_content h h' \<Longrightarrow> h' b = Some (CString k) \<longleftrightarrow> h b = Some (CString k)"
  by (drule same_content_at [where b = b]) (cases "h b"; cases "h' b"; auto)

lemma same_content_Buffer: "same_content h h' \<Longrightarrow> h' b = Some (Buffer k) \<longleftrightarrow> h b = Some (Buffer k)"
  by (drule same_content_at [where b = b]) (cases "h b"; cases "h' b"; auto)

lemma same_content_Element:
  "same_content h h' \<Longrightarrow> h b = Some (Element e) \<Longrightarrow>
   \<exists>e'. h' b = Some (Element e') \<and> url e' = url e \<and> data e' = data e \<and> len e' = len e"
  by (drule same_content_at [where b = b]) (cases "h' b"; auto dest: strip_eq_Element)

lemma same_content_sym: "same_content h h' \<Longrightarrow> same_content h' h"
  by (simp add: same_content_def)

lemma same_content_accessors:
  assumes "same_content h h'"
  shows "elem_len h' a = elem_len h a" "url_of h' a = url_of h a" "data_of h' a = data_of h a"
    "string_at h' p = string_at h p" "bytes_at h' p = bytes_at h p"
proof -
  have el: "(case h' a of Some (Element e) \<Rightarrow> f e | _ \<Rightarrow> z) = (case h a of Some (Element e) \<Rightarrow> f e | _ \<Rightarrow> z)"
    if "\<And>e e'. url e' = url e \<Longrightarrow> data e' = data e \<Longrightarrow> len e' = len e \<Longrightarrow> f e' = f e"
    for f :: "cache_element \<Rightarrow> 'a" and z
  proof (cases "h a")
    case None
    with same_content_None [OF assms, of a] show ?thesis by simp
  next
    case (Some x)
    show ?thesis
    proof (cases x)
      case (Element e)
      with Some same_content_Element [OF assms] obtain e' where
        e': "h' a = Some (Element e')" "url e' = url e" "data e' = data e" "len e' = len e"
        by blast
      from that [OF e'(2-4)] Some Element e'(1) show ?thesis by simp
    next
      case (CString k)
      with Some same_content_CString [OF assms, of a k] show ?thesis by simp
    next
      case (Buffer bs)
      with Some same_content_Buffer [OF assms, of a bs] show ?thesis by simp
    qed
  qed
  show "elem_len h' a = elem_len h a" unfolding elem_len_def by (rule el) simp
  show "url_of h' a = url_of h a" unfolding url_of_def by (rule el) simp
  show "data_of h' a = data_of h a" unfolding data_of_def by (rule el) simp
  show "string_at h' p = string_at h p"
  proof (cases p)
    case (Some u)
    have "\<And>k. (h' u = Some (CString k)) = (h u = Some (CString k))"
      by (rule same_content_CString [OF assms])
    then have "(case h' u of Some (CString k) \<Rightarrow> Some k | _ \<Rightarrow> None)
             = (case h u of Some (CString k) \<Rightarrow> Some k | _ \<Rightarrow> None)"
      by (cases "h u"; cases "h' u") (force split: obj.splits)+
    with Some show ?thesis by (simp add: string_at_def)
  qed (simp add: string_at_def)
  show "bytes_at h' p = bytes_at h p"
  proof (cases p)
    case (Some u)
    have "\<And>k. (h' u = Some (Buffer k)) = (h u = Some (Buffer k))"
      by (rule same_content_Buffer [OF assms])
    then have "(case h' u of Some (Buffer k) \<Rightarrow> Some k | _ \<Rightarrow> None)
             = (case h u of Some (Buffer k) \<Rightarrow> Some k | _ \<Rightarrow> None)"
      by (cases "h u"; cases "h' u") (force split: obj.splits)+
    with Some show ?thesis by (simp add: bytes_at_def)
  qed (simp add: bytes_at_def)
qed

lemma same_content_invs:
  assumes "same_content h h'"
  shows "index_ok h' m es = index_ok h m es" "payloads_ok h' es = payloads_ok h es"
    "total_len h' es = total_len h es" "key_of h' a = key_of h a" "payload_of h' a = payload_of h a"
  by (simp_all add: index_ok_def payloads_ok_def payload_ok_def total_len_def key_of_def payload_of_def
        same_content_accessors [OF assms] cong: option.case_cong)

lemma url_key_heap:
  "url_of h a = Some u \<Longrightarrow> key_of h a = Some k \<Longrightarrow>
   (\<exists>e. h a = Some (Element e) \<and> url e = Some u) \<and> h u = Some (CString k)"
  by (auto simp: url_of_def key_of_def string_at_def split: option.splits obj.splits)

lemma payload_heap:
  "payload_ok h a \<Longrightarrow>
   \<exists>e d bs. h a = Some (Element e) \<and> data e = Some d \<and> h d = Some (Buffer bs) \<and>
     length bs = unat (len e) \<and> len e \<noteq> 0"
  by (auto simp: payload_ok_def payload_of_def bytes_at_def data_of_def elem_len_def
      split: option.splits obj.splits)

lemma index_entry:
  assumes "index_ok h m es" "a \<in> set es"
  shows "\<exists>k u. url_of h a = Some u \<and> key_of h a = Some k \<and> map_of m k = Some (u, a)"
proof -
  from assms obtain k u where in_m: "(k, u, a) \<in> set m"
    by (fastforce simp: index_ok_def)
  with assms(1) have "url_of h a = Some u" "key_of h a = Some k" "distinct (map fst m)"
    by (auto simp: index_ok_def)
  with in_m show ?thesis by auto
qed

lemma index_lookup:
  assumes "index_ok h m es" "map_of m k = Some (u, a)"
  shows "a \<in> set es \<and> url_of h a = Some u \<and> key_of h a = Some k"
proof -
  from assms(2) have "(k, u, a) \<in> set m" by (rule map_of_SomeD)
  with assms(1) show ?thesis by (auto simp: index_ok_def)
qed

lemma index_url_inj:
  assumes "index_ok h m es" "a \<in> set es" "b \<in> set es" "url_of h a = url_of h b"
  shows "a = b"
proof -
  from index_entry [OF assms(1,2)] obtain k u where
    a: "url_of h a = Some u" "key_of h a = Some k" "map_of m k = Some (u, a)" by blast
  from index_entry [OF assms(1,3)] obtain k' u' where
    b: "url_of h b = Some u'" "key_of h b = Some k'" "map_of m k' = Some (u', b)" by blast
  from a b assms(4) have "k' = k" by (simp add: key_of_def)
  with a b show ?thesis by simp
qed

lemma index_remove:
  assumes ok: "index_ok h m es" and a: "a \<in> set es" and k: "key_of h a = Some k"
    and es': "set es' = set es - {a}"
  shows "index_ok h (filter (\<lambda>x. fst x \<noteq> k) m) es'"
  unfolding index_ok_def
proof (intro conjI ballI)
  show "distinct (map fst (filter (\<lambda>x. fst x \<noteq> k) m))"
    using ok by (simp add: index_ok_def distinct_map_filter)
next
  fix x assume x: "x \<in> set (filter (\<lambda>x. fst x \<noteq> k) m)"
  obtain k' u' b where [simp]: "x = (k', u', b)" by (cases x)
  from x ok have b: "b \<in> set es" "url_of h b = Some u'" "key_of h b = Some k'" and ne: "k' \<noteq> k"
    by (auto simp: index_ok_def)
  with k have "b \<noteq> a" by auto
  with b es' show "case x of (k, u, a) \<Rightarrow> a \<in> set es' \<and> url_of h a = Some u \<and> key_of h a = Some k"
    by simp
next
  fix b assume "b \<in> set es'"
  with es' have b: "b \<in> set es" "b \<noteq> a" by auto
  from index_entry [OF ok b(1)] obtain k' u' where
    e: "url_of h b = Some u'" "key_of h b = Some k'" "map_of m k' = Some (u', b)" by blast
  from index_entry [OF ok a] k obtain u where "map_of m k = Some (u, a)" by auto
  with e b have "k' \<noteq> k" by auto
  moreover from e have "(k', u', b) \<in> set m" by (auto dest: map_of_SomeD)
  ultimately show "b \<in> set (map (\<lambda>(k, u, a). a) (filter (\<lambda>x. fst x \<noteq> k) m))"
    by force
qed

lemma payloads_subset:
  "payloads_ok h es \<Longrightarrow> set es' \<subseteq> set es \<Longrightarrow> payloads_ok h es'"
  by (auto simp: payloads_ok_def)

lemma map_erase_ok:
  assumes ok: "index_ok h (map_tbl s) es" and a: "a \<in> set es"
    and hs: "heap s = h"
    and ha: "h a = Some (Element e)"
    and d: "data e = None \<or> (\<exists>bs. bytes_at h (data e) = Some bs)"
  shows "\<exists>k. key_of h a = Some k \<and>
     map_erase (url e) s =
       Inr (s\<lparr>map_tbl := filter (\<lambda>x. fst x \<noteq> k) (map_tbl s),
              heap := (\<lambda>b. if b = a \<or> Some b = url e \<or> Some b = data e then None else h b)\<rparr>)"
proof -
  from index_entry [OF ok a] obtain k u where
    u: "url_of h a = Some u" and k: "key_of h a = Some k"
    and m: "map_of (map_tbl s) k = Some (u, a)" by blast
  from url_key_heap [OF u k] ha have ue: "url e = Some u" and hu: "h u = Some (CString k)"
    by auto
  have gs: "get_string h (url e) = Inr k"
    using ue hu by (simp add: get_string_def)
  have f1: "free (Some u) h = Inr (h(u := None))"
    using hu by (simp add: free_def)
  have ua: "u \<noteq> a" using ha hu by auto
  have f2: "free (data e) (h(u := None)) =
              Inr (\<lambda>b. if Some b = url e \<or> Some b = data e then None else h b)"
  proof (cases "data e")
    case None
    then show ?thesis using ue by (auto simp: free_def)
  next
    case (Some dp)
    with d obtain bs where "h dp = Some (Buffer bs)"
      by (auto simp: bytes_at_def split: option.splits obj.splits)
    with hu have "dp \<noteq> u" by auto
    with Some \<open>h dp = Some (Buffer bs)\<close> ue show ?thesis
      by (auto simp: free_def)
  qed
  have da: "data e \<noteq> Some a"
    using d ha by (auto simp: bytes_at_def)
  have f3: "free (Some a) (\<lambda>b. if Some b = url e \<or> Some b = data e then None else h b) =
              Inr (\<lambda>b. if b = a \<or> Some b = url e \<or> Some b = data e then None else h b)"
    using ha ua ue da by (auto simp: free_def)
  have "free_cache_element (Some a) (h(u := None)) =
          Inr (\<lambda>b. if b = a \<or> Some b = url e \<or> Some b = data e then None else h b)"
    using ha ua f2 f3 by (simp add: free_cache_element_def get_element_ok)
  with gs m f1 k hs show ?thesis
    by (simp add: map_erase_def)
qed

lemma entry_view_eq:
  "entry_view h' a = entry_view h a \<longleftrightarrow>
     url_of h' a = url_of h a \<and> key_of h' a = key_of h a \<and> data_of h' a = data_of h a \<and>
     payload_of h' a = payload_of h a \<and> elem_len h' a = elem_len h a"
  by (simp add: entry_view_def)

lemma view_frame:
  assumes "h' a = h a" "\<And>u. url_of h a = Some u \<Longrightarrow> h' u = h u"
    "\<And>d. data_of h a = Some d \<Longrightarrow> h' d = h d"
  shows "entry_view h' a = entry_view h a"
proof -
  have 1: "url_of h' a = url_of h a" "data_of h' a = data_of h a" "elem_len h' a = elem_len h a"
    using assms(1) by (simp_all add: url_of_def data_of_def elem_len_def)
  have 2: "string_at h' (url_of h a) = string_at h (url_of h a)"
    by (rule string_at_cong) (simp add: assms(2))
  have 3: "bytes_at h' (data_of h a) = bytes_at h (data_of h a)"
    by (rule bytes_at_cong) (simp add: assms(3))
  show ?thesis
    by (simp add: entry_view_def key_of_def payload_of_def 1 2 3)
qed

lemma same_content_view: "same_content h h' \<Longrightarrow> entry_view h' a = entry_view h a"
  by (simp add: entry_view_def key_of_def payload_of_def same_content_accessors)

lemma views_cong:
  assumes "\<And>b. b \<in> set es \<Longrightarrow> entry_view h' b = entry_view h b"
  shows "index_ok h' m es = index_ok h m es" "payloads_ok h' es = payloads_ok h es"
    "total_len h' es = total_len h es"
proof -
  have v: "url_of h' b = url_of h b" "key_of h' b = key_of h b" "data_of h' b = data_of h b"
    "payload_of h' b = payload_of h b" "elem_len h' b = elem_len h b" if "b \<in> set es" for b
    using assms [OF that] by (simp_all add: entry_view_eq)
  show "index_ok h' m es = index_ok h m es"
    unfolding index_ok_def using v by (intro arg_cong2 [where f = "(\<and>)"] refl ball_cong) auto
  show "payloads_ok h' es = payloads_ok h es"
    unfolding payloads_ok_def payload_ok_def using v
    by (intro arg_cong2 [where f = "(\<and>)"] ball_cong refl) (simp_all cong: option.case_cong)
  show "total_len h' es = total_len h es"
    unfolding total_len_def by (rule arg_cong [where f = sum_list]) (simp add: v)
qed

lemma remove_lru_ok:
  assumes inv: "struct_inv s (xs @ [a])"
  shows "\<exists>s'. remove_lru_element_unlocked s = Inr s' \<and> struct_inv s' xs \<and>
     current_size s' = current_size s - elem_len (heap s) a \<and> mutex s' = mutex s \<and>
     heap s' a = None \<and> (\<forall>b\<in>set xs. entry_view (heap s') b = entry_view (heap s) b) \<and>
     set (map_tbl s') \<subseteq> set (map_tbl s) \<and> (\<forall>b. heap s b = None \<longrightarrow> heap s' b = None)"
proof -
  from inv have seg: "dseg (heap s) None (head s) (xs @ a # []) (tail s) None"
    and dist: "distinct (xs @ a # [])"
    and idx: "index_ok (heap s) (map_tbl s) (xs @ [a])"
    and pay: "payloads_ok (heap s) (xs @ [a])"
    by (simp_all add: struct_inv_def)
  have tl: "tail s = Some a"
    using dseg_last [OF seg] by simp
  from detach_ok [OF seg dist] obtain s1 where
    det: "detach_node_unlocked (Some a) s = Inr s1"
    and seg1: "dseg (heap s1) None (head s1) xs (tail s1) None"
    and sc: "same_content (heap s) (heap s1)"
    and fr1: "map_tbl s1 = map_tbl s" "current_size s1 = current_size s" "mutex s1 = mutex s"
    by auto
  let ?h1 = "heap s1"
  have idx1: "index_ok ?h1 (map_tbl s) (xs @ [a])" and pay1: "payloads_ok ?h1 (xs @ [a])"
    using idx pay by (simp_all add: same_content_invs [OF sc])
  from pay1 have "payload_ok ?h1 a" by (simp add: payloads_ok_def)
  from payload_heap [OF this] obtain e d bs where
    ha: "?h1 a = Some (Element e)" and de: "data e = Some d" and hd: "?h1 d = Some (Buffer bs)"
    by blast
  have len_a: "elem_len (heap s) a = len e"
    using ha same_content_accessors(1) [OF sc, of a] by (simp add: elem_len_def)
  let ?s2 = "s1\<lparr>current_size := current_size s1 - len e\<rparr>"
  define h' where "h' = (\<lambda>b. if b = a \<or> Some b = url e \<or> Some b = data e then None else ?h1 b)"
  have "\<exists>k. key_of ?h1 a = Some k \<and>
     map_erase (url e) ?s2 =
       Inr (?s2\<lparr>map_tbl := filter (\<lambda>x. fst x \<noteq> k) (map_tbl s), heap := h'\<rparr>)"
    unfolding h'_def
    using map_erase_ok [where s = ?s2 and es = "xs @ [a]" and a = a and e = e and h = ?h1] idx1 ha de hd fr1
    by (simp add: bytes_at_def)
  then obtain k where k: "key_of ?h1 a = Some k"
    and er0: "map_erase (url e) ?s2 =
       Inr (?s2\<lparr>map_tbl := filter (\<lambda>x. fst x \<noteq> k) (map_tbl s), heap := h'\<rparr>)"
    by blast
  define s' where "s' = ?s2\<lparr>map_tbl := filter (\<lambda>x. fst x \<noteq> k) (map_tbl s), heap := h'\<rparr>"
  have er: "map_erase (url e) ?s2 = Inr s'"
    using er0 by (simp only: s'_def)
  have run: "remove_lru_element_unlocked s = Inr s'"
    using tl det ha er by (simp add: remove_lru_element_unlocked_def get_element_ok)
  have fields: "map_tbl s' = filter (\<lambda>x. fst x \<noteq> k) (map_tbl s)" "heap s' = h'"
    "head s' = head s1" "tail s' = tail s1" "mutex s' = mutex s"
    "current_size s' = current_size s - elem_len (heap s) a"
    using k fr1 len_a by (simp_all add: s'_def)
  from index_entry [OF idx1, of a] k obtain u where
    ua: "url_of ?h1 a = Some u" by auto
  from url_key_heap [OF ua k] ha have ue: "url e = Some u" and hu: "?h1 u = Some (CString k)"
    by auto
  have h'_eq: "h' b = (if b = a \<or> b = u \<or> b = d then None else ?h1 b)" for b
    using ue de by (auto simp: h'_def)
  have keep: "h' b = ?h1 b" if "?h1 b = Some (Element eb)" "b \<noteq> a" for b eb
    using that hu hd by (auto simp: h'_eq)
  have views1: "entry_view h' b = entry_view ?h1 b" if b: "b \<in> set xs" for b
  proof (rule view_frame)
    from b dist have ba: "b \<noteq> a" "b \<in> set (xs @ [a])" by auto
    from dseg_live [OF seg1 b] obtain eb where eb: "?h1 b = Some (Element eb)" by blast
    show "h' b = ?h1 b" using keep [OF eb ba(1)] .
    { fix ub assume ub: "url_of ?h1 b = Some ub"
      from index_entry [OF idx1 ba(2)] ub obtain kb where "key_of ?h1 b = Some kb" by auto
      from url_key_heap [OF ub this] have "?h1 ub = Some (CString kb)" by simp
      moreover have "ub \<noteq> u"
        using index_url_inj [OF idx1 ba(2), of a] ua ub ba(1) by auto
      ultimately show "h' ub = ?h1 ub"
        using ha hd by (auto simp: h'_eq) }
    { fix db assume db: "data_of ?h1 b = Some db"
      from pay1 ba have "payload_ok ?h1 b" by (simp add: payloads_ok_def)
      from payload_heap [OF this] db obtain bsb where "?h1 db = Some (Buffer bsb)"
        by (auto simp: data_of_def)
      moreover have "db \<noteq> d"
        using pay1 ba db ha de by (auto simp: payloads_ok_def data_of_def)
      ultimately show "h' db = ?h1 db"
        using ha hu by (auto simp: h'_eq) }
  qed
  have views: "\<forall>b\<in>set xs. entry_view h' b = entry_view (heap s) b"
    using views1 same_content_view [OF sc] by simp
  have seg': "dseg h' None (head s1) xs (tail s1) None"
  proof -
    have "dseg h' None (head s1) xs (tail s1) None = dseg ?h1 None (head s1) xs (tail s1) None"
    proof (rule dseg_cong)
      fix b assume b: "b \<in> set xs"
      from dseg_live [OF seg1 b] obtain eb where eb: "?h1 b = Some (Element eb)" by blast
      from b dist have "b \<noteq> a" by auto
      from keep [OF eb this] show "h' b = ?h1 b" .
    qed
    with seg1 show ?thesis by simp
  qed
  have "index_ok ?h1 (filter (\<lambda>x. fst x \<noteq> k) (map_tbl s)) xs"
    by (rule index_remove [OF idx1 _ k]) (use dist in auto)
  then have idx': "index_ok h' (filter (\<lambda>x. fst x \<noteq> k) (map_tbl s)) xs"
    using views_cong(1) [of xs h' ?h1, OF views1] by simp
  have "payloads_ok ?h1 xs"
    by (rule payloads_subset [OF pay1]) auto
  then have pay': "payloads_ok h' xs"
    using views_cong(2) [of xs h' ?h1, OF views1] by simp
  have inv': "struct_inv s' xs"
    using seg' dist idx' pay' by (simp add: struct_inv_def fields)
  have none: "\<forall>b. heap s b = None \<longrightarrow> h' b = None"
  proof (intro allI impI)
    fix b assume "heap s b = None"
    then have "?h1 b = None" by (simp add: same_content_None [OF sc])
    then show "h' b = None" by (simp add: h'_eq)
  qed
  have "h' a = None" by (simp add: h'_eq)
  moreover have "set (map_tbl s') \<subseteq> set (map_tbl s)" by (auto simp: fields)
  ultimately show ?thesis
    using run inv' views none fields(2,5,6) by (intro exI [of _ s']) simp
qed

lemma total_len_append [simp]: "total_len h (xs @ ys) = total_len h xs + total_len h ys"
  by (simp add: total_len_def)

lemma total_len_Nil [simp]: "total_len h [] = 0"
  by (simp add: total_len_def)

lemma total_len_single [simp]: "total_len h [a] = unat (elem_len h a)"
  by (simp add: total_len_def)

lemma total_len_views:
  "(\<And>b. b \<in> set es \<Longrightarrow> entry_view h' b = entry_view h b) \<Longrightarrow> total_len h' es = total_len h es"
  by (rule views_cong(3))

lemma evict_loop_stop:
  "\<not> MAX_CACHE_SIZE < current_size s + n \<Longrightarrow> evict_loop n s = Some (Inr s)"
  by (subst evict_loop.simps) simp

lemma evict_loop_step:
  "MAX_CACHE_SIZE < current_size s + n \<Longrightarrow> remove_lru_element_unlocked s = Inr s1 \<Longrightarrow>
   evict_loop n s = evict_loop n s1"
  by (subst evict_loop.simps) simp

lemma evict_loop_ok:
  assumes "struct_inv s es"
    and "\<not> MAX_CACHE_SIZE < current_size s - of_nat (total_len (heap s) es) + n"
  shows "\<exists>k s'. k \<le> length es \<and> evict_loop n s = Some (Inr s') \<and> struct_inv s' (take k es) \<and>
     current_size s' = current_size s - of_nat (total_len (heap s) (drop k es)) \<and>
     \<not> MAX_CACHE_SIZE < current_size s' + n \<and>
     (\<forall>j. k < j \<and> j \<le> length es \<longrightarrow>
        MAX_CACHE_SIZE < current_size s - of_nat (total_len (heap s) (drop j es)) + n) \<and>
     (\<forall>b\<in>set (take k es). entry_view (heap s') b = entry_view (heap s) b) \<and>
     (\<forall>b\<in>set (drop k es). heap s' b = None) \<and>
     set (map_tbl s') \<subseteq> set (map_tbl s) \<and> (\<forall>b. heap s b = None \<longrightarrow> heap s' b = None) \<and>
     mutex s' = mutex s"
  using assms
proof (induction es arbitrary: s rule: rev_induct)
  case Nil
  then have "evict_loop n s = Some (Inr s)"
    by (simp add: evict_loop_stop)
  with Nil show ?case by (intro exI [of _ 0] exI [of _ s]) auto
next
  case (snoc a xs)
  show ?case
  proof (cases "MAX_CACHE_SIZE < current_size s + n")
    case False
    then have "evict_loop n s = Some (Inr s)"
      by (rule evict_loop_stop)
    with False snoc.prems show ?thesis
      by (intro exI [of _ "length (xs @ [a])"] exI [of _ s]) auto
  next
    case True
    from remove_lru_ok [OF snoc.prems(1)] obtain s1 where
      rm: "remove_lru_element_unlocked s = Inr s1" and inv1: "struct_inv s1 xs"
      and cs1: "current_size s1 = current_size s - elem_len (heap s) a"
      and mx1: "mutex s1 = mutex s" and fr1: "heap s1 a = None"
      and vw1: "\<forall>b\<in>set xs. entry_view (heap s1) b = entry_view (heap s) b"
      and mp1: "set (map_tbl s1) \<subseteq> set (map_tbl s)"
      and nn1: "\<forall>b. heap s b = None \<longrightarrow> heap s1 b = None"
      by blast
    have tot: "total_len (heap s1) ys = total_len (heap s) ys" if "set ys \<subseteq> set xs" for ys
      using that vw1 by (intro total_len_views) auto
    have tot_drop: "total_len (heap s1) (drop j xs) = total_len (heap s) (drop j xs)" for j
      by (rule tot) (rule set_drop_subset)
    have ex1: "\<not> MAX_CACHE_SIZE < current_size s1 - of_nat (total_len (heap s1) xs) + n"
      using snoc.prems(2) by (simp add: cs1 tot diff_diff_eq add.commute)
    from snoc.IH [OF inv1 ex1] obtain k s' where
      k: "k \<le> length xs" and run: "evict_loop n s1 = Some (Inr s')"
      and inv': "struct_inv s' (take k xs)"
      and cs': "current_size s' = current_size s1 - of_nat (total_len (heap s1) (drop k xs))"
      and stop: "\<not> MAX_CACHE_SIZE < current_size s' + n"
      and stages: "\<forall>j. k < j \<and> j \<le> length xs \<longrightarrow>
        MAX_CACHE_SIZE < current_size s1 - of_nat (total_len (heap s1) (drop j xs)) + n"
      and vw': "\<forall>b\<in>set (take k xs). entry_view (heap s') b = entry_view (heap s1) b"
      and fr': "\<forall>b\<in>set (drop k xs). heap s' b = None"
      and mp': "set (map_tbl s') \<subseteq> set (map_tbl s1)"
      and nn': "\<forall>b. heap s1 b = None \<longrightarrow> heap s' b = None"
      and mx': "mutex s' = mutex s1"
      by blast
    have 1: "evict_loop n s = Some (Inr s')"
      using evict_loop_step [OF True rm] run by simp
    have 2: "struct_inv s' (take k (xs @ [a]))"
      using inv' k by simp
    have 3: "current_size s' = current_size s - of_nat (total_len (heap s) (drop k (xs @ [a])))"
      using k by (simp add: cs' cs1 tot_drop diff_diff_eq add.commute)
    have 4: "MAX_CACHE_SIZE < current_size s - of_nat (total_len (heap s) (drop j (xs @ [a]))) + n"
      if "k < j" "j \<le> length (xs @ [a])" for j
    proof (cases "j \<le> length xs")
      case True
      with stages that have "MAX_CACHE_SIZE < current_size s1 - of_nat (total_len (heap s1) (drop j xs)) + n"
        by simp
      with True show ?thesis by (simp add: cs1 tot_drop diff_diff_eq add.commute)
    next
      case False
      with that have "drop j (xs @ [a]) = []" by simp
      with \<open>MAX_CACHE_SIZE < current_size s + n\<close> show ?thesis by simp
    qed
    have 5: "\<forall>b\<in>set (take k (xs @ [a])). entry_view (heap s') b = entry_view (heap s) b"
    proof
      fix b assume "b \<in> set (take k (xs @ [a]))"
      with k have b: "b \<in> set (take k xs)" by simp
      then have "b \<in> set xs" by (rule in_set_takeD)
      with vw1 vw' b show "entry_view (heap s') b = entry_view (heap s) b" by simp
    qed
    have 6: "\<forall>b\<in>set (drop k (xs @ [a])). heap s' b = None"
      using k fr' fr1 nn' by auto
    have 7: "set (map_tbl s') \<subseteq> set (map_tbl s)" "\<forall>b. heap s b = None \<longrightarrow> heap s' b = None"
      "mutex s' = mutex s"
      using mp' mp1 nn' nn1 mx' mx1 by auto
    from k have 0: "k \<le> length (xs @ [a])" by simp
    show ?thesis
      using 0 1 2 3 stop 4 5 6 7 by blast
  qed
qed

section \<open>Lemmas about the public operations\<close>

lemma total_len_Cons [simp]: "total_len h (a # es) = unat (elem_len h a) + total_len h es"
  by (simp add: total_len_def)

lemma index_ok_set: "set es' = set es \<Longrightarrow> index_ok h m es' = index_ok h m es"
  by (simp add: index_ok_def)

lemma payloads_ok_set: "set es' = set es \<Longrightarrow> payloads_ok h es' = payloads_ok h es"
  by (simp add: payloads_ok_def)

lemma map_find_Some: "map_find m k = Some a \<longleftrightarrow> (\<exists>u. map_of m k = Some (u, a))"
  by (auto simp: map_find_def)

lemma unlock_lock: "\<not> mutex s \<Longrightarrow> mutex_unlock (s\<lparr>mutex := True\<rparr>) = s"
  by (simp add: mutex_unlock_def)

lemma struct_inv_mutex [simp]: "struct_inv (s\<lparr>mutex := b\<rparr>) es = struct_inv s es"
  by (simp add: struct_inv_def)

lemma cache_find_miss:
  "\<not> mutex s \<Longrightarrow> map_find (map_tbl s) k = None \<Longrightarrow> cache_find (Some k) s = Some (Inr (None, s))"
  by (simp add: cache_find_def mutex_lock_def unlock_lock)

lemma cache_find_hit:
  assumes inv: "cache_inv s es" and hit: "map_find (map_tbl s) k = Some a"
  shows "\<exists>s'. cache_find (Some k) s = Some (Inr (Some a, s')) \<and>
     cache_inv s' (a # remove1 a es) \<and> same_content (heap s) (heap s') \<and>
     map_tbl s' = map_tbl s \<and> current_size s' = current_size s"
proof -
  from inv have seg: "dseg (heap s) None (head s) es (tail s) None" and dist: "distinct es"
    and idx: "index_ok (heap s) (map_tbl s) es" and pay: "payloads_ok (heap s) es"
    and sz: "unat (current_size s) = total_len (heap s) es" "current_size s \<le> MAX_CACHE_SIZE"
    and mx: "\<not> mutex s"
    by (simp_all add: cache_inv_def struct_inv_def)
  from hit obtain u where "map_of (map_tbl s) k = Some (u, a)"
    by (auto simp: map_find_Some)
  from index_lookup [OF idx this] have a: "a \<in> set es" by simp
  then obtain xs ys where es: "es = xs @ a # ys"
    by (auto dest: split_list)
  with dist have rm: "remove1 a es = xs @ ys" and nin: "a \<notin> set (xs @ ys)" and d2: "distinct (xs @ ys)"
    by (auto simp: remove1_append)
  let ?s1 = "s\<lparr>mutex := True\<rparr>"
  have lk: "mutex_lock s = Some ?s1"
    using mx by (simp add: mutex_lock_def)
  have seg1: "dseg (heap ?s1) None (head ?s1) (xs @ a # ys) (tail ?s1) None"
    using seg es by simp
  from detach_ok [OF seg1] dist es obtain s2 where
    det: "detach_node_unlocked (Some a) ?s1 = Inr s2"
    and seg2: "dseg (heap s2) None (head s2) (xs @ ys) (tail s2) None"
    and sc2: "same_content (heap s) (heap s2)" and ha2: "heap s2 a = heap s a"
    and fr2: "map_tbl s2 = map_tbl s" "current_size s2 = current_size s" "mutex s2 = True"
    by auto
  from dseg_live [OF seg a] ha2 obtain e where "heap s2 a = Some (Element e)"
    by auto
  from attach_ok [OF seg2 d2 nin this] obtain s3 where
    att: "attach_node_to_head_unlocked (Some a) s2 = Inr s3"
    and seg3: "dseg (heap s3) None (head s3) (a # xs @ ys) (tail s3) None"
    and sc3: "same_content (heap s2) (heap s3)"
    and fr3: "map_tbl s3 = map_tbl s2" "current_size s3 = current_size s2" "mutex s3 = mutex s2"
    by blast
  have sc: "same_content (heap s) (heap s3)"
    using sc2 sc3 by (rule same_content_trans)
  have run: "cache_find (Some k) s = Some (Inr (Some a, mutex_unlock s3))"
    using lk hit det att by (simp add: cache_find_def)
  have st: "set (a # xs @ ys) = set es" using es by auto
  have "index_ok (heap s3) (map_tbl s) (a # xs @ ys)"
    using idx by (simp only: same_content_invs(1) [OF sc] index_ok_set [OF st])
  moreover have "payloads_ok (heap s3) (a # xs @ ys)"
    using pay by (simp only: same_content_invs(2) [OF sc] payloads_ok_set [OF st])
  moreover have "total_len (heap s3) (a # xs @ ys) = total_len (heap s) es"
    unfolding same_content_invs(3) [OF sc] es by simp
  ultimately have "cache_inv (mutex_unlock s3) (a # remove1 a es)"
    using seg3 nin d2 sz fr2 fr3 by (simp add: cache_inv_def struct_inv_def mutex_unlock_def rm)
  with run sc fr2 fr3 show ?thesis
    by (simp add: mutex_unlock_def)
qed

lemma unat_MAX [simp]: "unat MAX_CACHE_SIZE = 100"
  by (simp add: MAX_CACHE_SIZE_def)

lemma no_wrap:
  "unat (x :: size_t) \<le> 100 \<Longrightarrow> unat (n :: size_t) \<le> 100 \<Longrightarrow> unat (x + n) = unat x + unat n"
  by (subst unat_add_lem [THEN iffD1]) simp_all

lemma evict_loop_insert:
  assumes inv: "struct_inv s es" and sz: "unat (current_size s) = total_len (heap s) es"
    and le: "current_size s \<le> MAX_CACHE_SIZE" and n: "n \<le> MAX_CACHE_SIZE"
  shows "\<exists>j s1. j \<le> length es \<and> evict_loop n s = Some (Inr s1) \<and> struct_inv s1 (take j es) \<and>
     unat (current_size s1) = total_len (heap s1) (take j es) \<and>
     unat (current_size s1) + unat n \<le> 100 \<and>
     (\<forall>i. j < i \<and> i \<le> length es \<longrightarrow> 100 < total_len (heap s) (take i es) + unat n) \<and>
     (\<forall>b\<in>set (take j es). entry_view (heap s1) b = entry_view (heap s) b) \<and>
     (\<forall>b\<in>set (drop j es). heap s1 b = None) \<and>
     set (map_tbl s1) \<subseteq> set (map_tbl s) \<and> (\<forall>b. heap s b = None \<longrightarrow> heap s1 b = None) \<and>
     mutex s1 = mutex s"
proof -
  have tot: "total_len (heap s) es \<le> 100" and n100: "unat n \<le> 100"
    using le n sz by (simp_all add: word_le_nat_alt)
  have cs: "current_size s = of_nat (total_len (heap s) es)"
    unfolding sz [symmetric] by simp
  have split: "total_len (heap s) es = total_len (heap s) (take i es) + total_len (heap s) (drop i es)" for i
    using total_len_append [of "heap s" "take i es" "drop i es"] by simp
  have stage: "current_size s - of_nat (total_len (heap s) (drop i es)) = of_nat (total_len (heap s) (take i es))" for i
    unfolding cs by (subst split [of i]) simp
  have ustage: "unat (of_nat (total_len (heap s) (take i es)) :: size_t) = total_len (heap s) (take i es)" for i
    using split [of i] tot by (simp add: unat_of_nat)
  have uadd: "unat (of_nat (total_len (heap s) (take i es)) + n) = total_len (heap s) (take i es) + unat n" for i
    using no_wrap [of "of_nat (total_len (heap s) (take i es))" n] ustage [of i] split [of i] tot n100
    by simp
  have "\<not> MAX_CACHE_SIZE < current_size s - of_nat (total_len (heap s) es) + n"
    using n by (simp add: cs)
  from evict_loop_ok [OF inv this] obtain j s1 where
    j: "j \<le> length es" and run: "evict_loop n s = Some (Inr s1)"
    and inv1: "struct_inv s1 (take j es)"
    and cs1: "current_size s1 = current_size s - of_nat (total_len (heap s) (drop j es))"
    and stop: "\<not> MAX_CACHE_SIZE < current_size s1 + n"
    and stages: "\<forall>i. j < i \<and> i \<le> length es \<longrightarrow>
        MAX_CACHE_SIZE < current_size s - of_nat (total_len (heap s) (drop i es)) + n"
    and vw: "\<forall>b\<in>set (take j es). entry_view (heap s1) b = entry_view (heap s) b"
    and rest: "\<forall>b\<in>set (drop j es). heap s1 b = None" "set (map_tbl s1) \<subseteq> set (map_tbl s)"
      "\<forall>b. heap s b = None \<longrightarrow> heap s1 b = None" "mutex s1 = mutex s"
    by blast
  have t1: "total_len (heap s1) (take j es) = total_len (heap s) (take j es)"
    using vw by (intro total_len_views) simp
  have 1: "unat (current_size s1) = total_len (heap s1) (take j es)"
    by (simp add: cs1 stage ustage t1)
  have 2: "unat (current_size s1) + unat n \<le> 100"
    using stop by (simp add: cs1 stage word_less_nat_alt uadd ustage)
  have 3: "\<forall>i. j < i \<and> i \<le> length es \<longrightarrow> 100 < total_len (heap s) (take i es) + unat n"
    using stages by (simp add: stage word_less_nat_alt uadd)
  from j run inv1 1 2 3 vw rest show ?thesis by blast
qed

lemma heap_same [simp]: "s\<lparr>heap := heap s\<rparr> = s"
  by simp

lemma alloc_free_same: "h a = None \<Longrightarrow> (h(a \<mapsto> x))(a := None) = h"
  by (simp add: fun_eq_iff)

lemma insert_alloc_fail:
  assumes loop: "evict_loop n s = Some (Inr s1)" and fail: "\<not> insert_allocs_ok plan (heap s1)"
  shows "cache_add_insert plan k d n s = Some (Inr (mutex_unlock s1))"
proof (cases "calloc_at plan")
  case None
  then show ?thesis
    using loop by (simp add: cache_add_insert_def calloc_element_def alloc_def)
next
  case (Some ne)
  note ne = this
  show ?thesis
  proof (cases "heap s1 ne = None")
    case False
    then show ?thesis
      using loop ne by (auto simp: cache_add_insert_def calloc_element_def alloc_def)
  next
    case True
    let ?z = "\<lparr>url = None, data = None, len = 0, next_ptr = None, prev_ptr = None\<rparr>"
    let ?h2 = "(heap s1)(ne \<mapsto> Element ?z)"
    have c: "calloc_element (calloc_at plan) (heap s1) = (Some ne, ?h2)"
      using ne True by (simp add: calloc_element_def alloc_def)
    show ?thesis
    proof (cases "\<exists>up. strdup_at plan = Some up \<and> ?h2 up = None")
      case False
      then have sd: "strdup (strdup_at plan) k ?h2 = (None, ?h2)"
        by (auto simp: strdup_def alloc_def split: option.splits)
      have p1: "put_element ne (\<lambda>x. x\<lparr>url := None\<rparr>) ?h2 = Inr ?h2"
        by (simp add: put_element_def fun_eq_iff)
      show ?thesis
      proof (cases "\<exists>dp. malloc_at plan = Some dp \<and> ?h2 dp = None")
        case False
        then have m: "malloc (malloc_at plan) n ?h2 = (None, ?h2)"
          by (auto simp: malloc_def alloc_def split: option.splits)
        have p2: "put_element ne (\<lambda>x. x\<lparr>data := None\<rparr>) ?h2 = Inr ?h2"
          by (simp add: put_element_def fun_eq_iff)
        have f: "free (Some ne) ?h2 = Inr (heap s1)"
          using \<open>heap s1 ne = None\<close> by (auto simp: free_def fun_eq_iff)
        show ?thesis
          using loop c sd p1 m p2 f by (simp add: cache_add_insert_def free_def)
      next
        case True
        then obtain dp where dp: "malloc_at plan = Some dp" "dp \<noteq> ne" "heap s1 dp = None"
          by (auto split: if_splits)
        let ?h5 = "?h2(dp \<mapsto> Buffer (replicate (unat n) 0))"
        have m: "malloc (malloc_at plan) n ?h2 = (Some dp, ?h5)"
          using dp by (simp add: malloc_def alloc_def)
        let ?h6 = "?h5(ne \<mapsto> Element (?z\<lparr>data := Some dp\<rparr>))"
        have p2: "put_element ne (\<lambda>x. x\<lparr>data := Some dp\<rparr>) ?h5 = Inr ?h6"
          using dp by (simp add: put_element_def)
        have f1: "free (Some dp) ?h6 = Inr (?h6(dp := None))"
          using dp by (simp add: free_def)
        have f2: "free (Some ne) (?h6(dp := None)) = Inr (heap s1)"
          using dp \<open>heap s1 ne = None\<close> by (auto simp: free_def fun_eq_iff)
        show ?thesis
          using loop c sd p1 m p2 f1 f2 by (simp add: cache_add_insert_def free_def)
      qed
    next
      case True
      then obtain up where up: "strdup_at plan = Some up" "up \<noteq> ne" "heap s1 up = None"
        by (auto split: if_splits)
      let ?h3 = "?h2(up \<mapsto> CString k)"
      have sd: "strdup (strdup_at plan) k ?h2 = (Some up, ?h3)"
        using up by (simp add: strdup_def alloc_def)
      let ?h4 = "?h3(ne \<mapsto> Element (?z\<lparr>url := Some up\<rparr>))"
      have p1: "put_element ne (\<lambda>x. x\<lparr>url := Some up\<rparr>) ?h3 = Inr ?h4"
        using up by (simp add: put_element_def)
      have mfail: "malloc (malloc_at plan) n ?h4 = (None, ?h4)"
        using fail ne up \<open>heap s1 ne = None\<close>
        by (auto simp: insert_allocs_ok_def malloc_def alloc_def split: option.splits)
      have p2: "put_element ne (\<lambda>x. x\<lparr>data := None\<rparr>) ?h4 = Inr ?h4"
        using up by (simp add: put_element_def fun_eq_iff)
      have f1: "free (Some up) ?h4 = Inr (?h4(up := None))"
        using up by (simp add: free_def)
      have f2: "free (Some ne) (?h4(up := None)) = Inr (heap s1)"
        using up \<open>heap s1 ne = None\<close> by (auto simp: free_def fun_eq_iff)
      show ?thesis
        using loop c sd p1 mfail p2 f1 f2
        by (simp add: cache_add_insert_def free_def)
    qed
  qed
qed

lemma dseg_ext:
  assumes "dseg h pv p es l q" "\<And>x. h x \<noteq> None \<Longrightarrow> h' x = h x"
  shows "dseg h' pv p es l q"
proof -
  have "dseg h' pv p es l q = dseg h pv p es l q"
  proof (rule dseg_cong)
    fix a assume "a \<in> set es"
    from dseg_live [OF assms(1) this] assms(2) show "h' a = h a" by auto
  qed
  with assms(1) show ?thesis by simp
qed

lemma view_ext:
  assumes idx: "index_ok h m es" and pay: "payloads_ok h es" and b: "b \<in> set es"
    and ext: "\<And>x. h x \<noteq> None \<Longrightarrow> h' x = h x"
  shows "entry_view h' b = entry_view h b"
proof (rule view_frame)
  from index_entry [OF idx b] obtain k u where
    u: "url_of h b = Some u" and k: "key_of h b = Some k" by blast
  from url_key_heap [OF u k] show "h' b = h b" using ext by auto
  { fix u' assume "url_of h b = Some u'"
    with u k url_key_heap [OF u k] show "h' u' = h u'" using ext by auto }
  { fix d' assume d': "data_of h b = Some d'"
    from pay b have "payload_ok h b" by (simp add: payloads_ok_def)
    from payload_heap [OF this] d' have "h d' \<noteq> None" by (auto simp: data_of_def)
    then show "h' d' = h d'" by (rule ext) }
qed

lemma index_live:
  assumes "index_ok h m es" "b \<in> set es"
  shows "h b \<noteq> None" "\<exists>u. url_of h b = Some u \<and> h u \<noteq> None"
proof -
  from index_entry [OF assms] obtain k u where
    u: "url_of h b = Some u" and k: "key_of h b = Some k" by blast
  from url_key_heap [OF u k] u show "h b \<noteq> None" "\<exists>u. url_of h b = Some u \<and> h u \<noteq> None"
    by auto
qed

lemma payload_live:
  assumes "payloads_ok h es" "b \<in> set es"
  shows "\<exists>d. data_of h b = Some d \<and> h d \<noteq> None"
proof -
  from assms have "payload_ok h b" by (simp add: payloads_ok_def)
  from payload_heap [OF this] show ?thesis by (auto simp: data_of_def)
qed

lemma payload_ok_view: "entry_view h' b = entry_view h b \<Longrightarrow> payload_ok h' b = payload_ok h b"
  by (simp add: payload_ok_def entry_view_eq cong: option.case_cong)

lemma insert_success:
  assumes loop: "evict_loop n s = Some (Inr s1)"
    and inv1: "struct_inv s1 es1"
    and sz1: "unat (current_size s1) = total_len (heap s1) es1"
    and fit: "unat (current_size s1) + unat n \<le> 100"
    and absent: "map_find (map_tbl s1) k = None"
    and allocs: "insert_allocs_ok plan (heap s1)"
    and n0: "n \<noteq> 0"
  shows "if length d < unat n then cache_add_insert plan k d n s = Some (Inl BufferOverrun)
     else (\<exists>s' ne up. cache_add_insert plan k d n s = Some (Inr s') \<and>
       calloc_at plan = Some ne \<and> strdup_at plan = Some up \<and>
       cache_inv s' (ne # es1) \<and>
       map_tbl s' = (k, up, ne) # map_tbl s1 \<and>
       current_size s' = current_size s1 + n \<and>
       key_of (heap s') ne = Some k \<and> payload_of (heap s') ne = Some (take (unat n) d) \<and>
       elem_len (heap s') ne = n \<and>
       (\<forall>b\<in>set es1. entry_view (heap s') b = entry_view (heap s1) b) \<and>
       (\<forall>x. heap s1 x \<noteq> None \<longrightarrow> heap s' x \<noteq> None))"
proof -
  from inv1 have seg1: "dseg (heap s1) None (head s1) es1 (tail s1) None" and dist1: "distinct es1"
    and idx1: "index_ok (heap s1) (map_tbl s1) es1" and pay1: "payloads_ok (heap s1) es1"
    by (simp_all add: struct_inv_def)
  from allocs obtain ne up dp where
    pl: "calloc_at plan = Some ne" "strdup_at plan = Some up" "malloc_at plan = Some dp"
    and fresh: "heap s1 ne = None" "heap s1 up = None" "heap s1 dp = None"
    and ne: "ne \<noteq> up" "ne \<noteq> dp" "up \<noteq> dp"
    by (auto simp: insert_allocs_ok_def split: option.splits)
  let ?z = "\<lparr>url = None, data = None, len = 0, next_ptr = None, prev_ptr = None\<rparr>"
  define h2 where "h2 = (heap s1)(ne \<mapsto> Element ?z)"
  define h3 where "h3 = h2(up \<mapsto> CString k)"
  define h4 where "h4 = h3(ne \<mapsto> Element (?z\<lparr>url := Some up\<rparr>))"
  define h5 where "h5 = h4(dp \<mapsto> Buffer (replicate (unat n) 0))"
  define h6 where "h6 = h5(ne \<mapsto> Element (?z\<lparr>url := Some up, data := Some dp\<rparr>))"
  have c: "calloc_element (calloc_at plan) (heap s1) = (Some ne, h2)"
    using pl fresh by (simp add: calloc_element_def alloc_def h2_def)
  have sd: "strdup (strdup_at plan) k h2 = (Some up, h3)"
    using pl fresh ne by (simp add: strdup_def alloc_def h2_def h3_def)
  have p1: "put_element ne (\<lambda>x. x\<lparr>url := Some up\<rparr>) h3 = Inr h4"
    using ne by (simp add: put_element_def h2_def h3_def h4_def)
  have m: "malloc (malloc_at plan) n h4 = (Some dp, h5)"
    using pl fresh ne by (simp add: malloc_def alloc_def h2_def h3_def h4_def h5_def)
  have p2: "put_element ne (\<lambda>x. x\<lparr>data := Some dp\<rparr>) h5 = Inr h6"
    using ne by (simp add: put_element_def h2_def h3_def h4_def h5_def h6_def)
  have h6dp: "h6 dp = Some (Buffer (replicate (unat n) 0))"
    using ne by (simp add: h5_def h6_def)
  show ?thesis
  proof (cases "length d < unat n")
    case True
    then have "memcpy (Some dp) d n h6 = Inl BufferOverrun"
      using h6dp by (simp add: memcpy_def)
    with True loop c sd p1 m p2 show ?thesis
      by (simp add: cache_add_insert_def)
  next
    case False
    define h7 where "h7 = h6(dp \<mapsto> Buffer (take (unat n) d))"
    define h8 where "h8 = h7(ne \<mapsto> Element (?z\<lparr>url := Some up, data := Some dp, len := n\<rparr>))"
    have mc: "memcpy (Some dp) d n h6 = Inr h7"
      using h6dp False by (simp add: memcpy_def h7_def)
    have p3: "put_element ne (\<lambda>x. x\<lparr>len := n\<rparr>) h7 = Inr h8"
      using ne by (simp add: put_element_def h6_def h7_def h8_def)
    have h8_eq: "h8 x = (if x = ne then Some (Element (?z\<lparr>url := Some up, data := Some dp, len := n\<rparr>))
        else if x = dp then Some (Buffer (take (unat n) d))
        else if x = up then Some (CString k) else heap s1 x)" for x
      using ne by (simp add: h2_def h3_def h4_def h5_def h6_def h7_def h8_def)
    have ext: "h8 x = heap s1 x" if "heap s1 x \<noteq> None" for x
      using that fresh by (auto simp: h8_eq)
    have nin: "ne \<notin> set es1"
      using index_live(1) [OF idx1, of ne] fresh by auto
    have seg8: "dseg (heap (s1\<lparr>heap := h8\<rparr>)) None (head (s1\<lparr>heap := h8\<rparr>)) es1 (tail (s1\<lparr>heap := h8\<rparr>)) None"
      using dseg_ext [OF seg1 ext] by simp
    have "heap (s1\<lparr>heap := h8\<rparr>) ne = Some (Element (?z\<lparr>url := Some up, data := Some dp, len := n\<rparr>))"
      by (simp add: h8_eq)
    from attach_ok [OF seg8 dist1 nin this] obtain s9 where
      att: "attach_node_to_head_unlocked (Some ne) (s1\<lparr>heap := h8\<rparr>) = Inr s9"
      and seg9: "dseg (heap s9) None (head s9) (ne # es1) (tail s9) None"
      and sc9: "same_content h8 (heap s9)"
      and fr9: "map_tbl s9 = map_tbl s1" "current_size s9 = current_size s1" "mutex s9 = mutex s1"
      by auto
    have "heap s9 up = Some (CString k)"
      using ne by (simp add: same_content_CString [OF sc9] h8_eq)
    then have gs: "get_string (heap s9) (Some up) = Inr k"
      by (simp add: get_string_def)
    have knew: "k \<notin> fst ` set (map_tbl s1)"
      using absent by (auto simp: map_find_def map_of_eq_None_iff)
    then have flt: "filter (\<lambda>x. fst x \<noteq> k) (map_tbl s1) = map_tbl s1"
      by (auto simp: filter_id_conv)
    define s10 where "s10 = s9\<lparr>map_tbl := (k, up, ne) # map_tbl s1\<rparr>"
    have ins: "map_insert (Some up) ne s9 = Inr s10"
      using gs flt fr9 by (simp add: map_insert_def s10_def)
    define s' where "s' = mutex_unlock (s10\<lparr>current_size := current_size s10 + n\<rparr>)"
    have run: "cache_add_insert plan k d n s = Some (Inr s')"
      using loop c sd p1 m p2 mc p3 att ins by (simp add: cache_add_insert_def s'_def)
    have fields: "heap s' = heap s9" "head s' = head s9" "tail s' = tail s9" "\<not> mutex s'"
      "map_tbl s' = (k, up, ne) # map_tbl s1" "current_size s' = current_size s1 + n"
      using fr9 by (simp_all add: s'_def s10_def mutex_unlock_def)
    have v_old8: "entry_view h8 b = entry_view (heap s1) b" if "b \<in> set es1" for b
      by (rule view_ext [OF idx1 pay1 that ext])
    have v_old: "entry_view (heap s9) b = entry_view (heap s1) b" if "b \<in> set es1" for b
      using v_old8 [OF that] same_content_view [OF sc9, of b] by simp
    have v_new8: "url_of h8 ne = Some up" "key_of h8 ne = Some k" "data_of h8 ne = Some dp"
      "payload_of h8 ne = Some (take (unat n) d)" "elem_len h8 ne = n"
      using ne by (simp_all add: url_of_def key_of_def data_of_def payload_of_def elem_len_def
          string_at_def bytes_at_def h8_eq)
    have v_new: "url_of (heap s9) ne = Some up" "key_of (heap s9) ne = Some k"
      "data_of (heap s9) ne = Some dp"
      "payload_of (heap s9) ne = Some (take (unat n) d)" "elem_len (heap s9) ne = n"
      using v_new8 same_content_view [OF sc9, of ne] by (simp_all add: entry_view_eq)
    have old: "url_of (heap s9) b = url_of (heap s1) b" "key_of (heap s9) b = key_of (heap s1) b"
      "data_of (heap s9) b = data_of (heap s1) b" "payload_of (heap s9) b = payload_of (heap s1) b"
      "elem_len (heap s9) b = elem_len (heap s1) b" if "b \<in> set es1" for b
      using v_old [OF that] by (simp_all add: entry_view_eq)
    have idx': "index_ok (heap s9) ((k, up, ne) # map_tbl s1) (ne # es1)"
      unfolding index_ok_def
    proof (intro conjI ballI)
      show "distinct (map fst ((k, up, ne) # map_tbl s1))"
        using idx1 knew by (simp add: index_ok_def)
    next
      fix x assume "x \<in> set ((k, up, ne) # map_tbl s1)"
      then consider "x = (k, up, ne)" | "x \<in> set (map_tbl s1)" by auto
      then show "case x of (k, u, a) \<Rightarrow> a \<in> set (ne # es1) \<and> url_of (heap s9) a = Some u \<and> key_of (heap s9) a = Some k"
      proof cases
        case 1
        then show ?thesis using v_new by simp
      next
        case 2
        obtain k' u' b where x: "x = (k', u', b)" by (cases x)
        with 2 idx1 have "b \<in> set es1" "url_of (heap s1) b = Some u'" "key_of (heap s1) b = Some k'"
          by (auto simp: index_ok_def)
        with x old show ?thesis by simp
      qed
    next
      fix b assume "b \<in> set (ne # es1)"
      then show "b \<in> set (map (\<lambda>(k, u, a). a) ((k, up, ne) # map_tbl s1))"
        using idx1 by (auto simp: index_ok_def)
    qed
    have pay': "payloads_ok (heap s9) (ne # es1)"
      unfolding payloads_ok_def
    proof (intro conjI ballI impI)
      fix b assume "b \<in> set (ne # es1)"
      then consider "b = ne" | "b \<in> set es1" by auto
      then show "payload_ok (heap s9) b"
      proof cases
        case 1
        then show ?thesis using v_new False n0 by (simp add: payload_ok_def)
      next
        case 2
        with pay1 have "payload_ok (heap s1) b" by (simp add: payloads_ok_def)
        then show ?thesis using payload_ok_view [OF v_old [OF 2]] by simp
      qed
    next
      fix a b assume ab: "a \<in> set (ne # es1)" "b \<in> set (ne # es1)"
        and eq: "data_of (heap s9) a = data_of (heap s9) b"
      have nd: "data_of (heap s1) c \<noteq> Some dp" if "c \<in> set es1" for c
        using payload_live [OF pay1 that] fresh by auto
      have d9: "data_of (heap s9) c = data_of (heap s1) c" "data_of (heap s9) c \<noteq> Some dp"
        if "c \<in> set es1" for c
        using old(3) [OF that] nd [OF that] by simp_all
      from ab consider "a = ne" "b = ne" | "a = ne" "b \<in> set es1" | "a \<in> set es1" "b = ne"
        | "a \<in> set es1" "b \<in> set es1" by auto
      then show "a = b"
      proof cases
        case 1
        then show ?thesis by simp
      next
        case 2
        with eq v_new(3) d9(2) [of b] show ?thesis by simp
      next
        case 3
        with eq v_new(3) d9(2) [of a] show ?thesis by simp
      next
        case 4
        with eq d9(1) pay1 show ?thesis by (simp add: payloads_ok_def)
      qed
    qed
    have tot: "total_len (heap s9) es1 = total_len (heap s1) es1"
      by (rule total_len_views) (rule v_old)
    have n100: "unat n \<le> 100" and c100: "unat (current_size s1) \<le> 100"
      using fit by simp_all
    have usz: "unat (current_size s1 + n) = unat (current_size s1) + unat n"
      by (rule no_wrap [OF c100 n100])
    have inv': "cache_inv s' (ne # es1)"
      using seg9 nin dist1 idx' pay' tot sz1 fit usz v_new(5)
      by (simp add: cache_inv_def struct_inv_def fields word_le_nat_alt)
    have live: "\<forall>x. heap s1 x \<noteq> None \<longrightarrow> heap s9 x \<noteq> None"
      using ext by (simp add: same_content_None [OF sc9])
    show ?thesis
      using False run pl inv' fields v_new v_old live by simp
  qed
qed

lemma index_cong:
  assumes "\<And>b. b \<in> set es \<Longrightarrow> url_of h' b = url_of h b \<and> key_of h' b = key_of h b"
  shows "index_ok h' m es = index_ok h m es"
  unfolding index_ok_def using assms
  by (intro arg_cong2 [where f = "(\<and>)"] refl ball_cong) auto

lemma map_erase_direct:
  assumes hs: "heap s = h" and ha: "h a = Some (Element e)" and ue: "url e = Some u"
    and hu: "h u = Some (CString k)" and m: "map_of (map_tbl s) k = Some (u, a)"
    and d: "data e = None"
  shows "map_erase (url e) s =
       Inr (s\<lparr>map_tbl := filter (\<lambda>x. fst x \<noteq> k) (map_tbl s),
              heap := (\<lambda>b. if b = a \<or> b = u then None else h b)\<rparr>)"
proof -
  have gs: "get_string h (url e) = Inr k"
    using ue hu by (simp add: get_string_def)
  have f1: "free (Some u) h = Inr (h(u := None))"
    using hu by (simp add: free_def)
  have ua: "u \<noteq> a" using ha hu by auto
  have "free_cache_element (Some a) (h(u := None)) = Inr (\<lambda>b. if b = a \<or> b = u then None else h b)"
    using ha ua d by (auto simp: free_cache_element_def get_element_ok free_def fun_eq_iff)
  with gs m f1 hs show ?thesis
    by (simp add: map_erase_def)
qed

lemma others_footprint:
  assumes idx: "index_ok h m es" and pay: "payloads_ok h es"
    and a: "a \<in> set es" and b: "b \<in> set es" and ba: "b \<noteq> a"
    and ha: "h a = Some (Element e)" and ue: "url e = Some u" and de: "data e = Some dp"
  shows "\<exists>eb ub kb db bsb. h b = Some (Element eb) \<and> url eb = Some ub \<and> h ub = Some (CString kb) \<and>
     data eb = Some db \<and> h db = Some (Buffer bsb) \<and> ub \<noteq> u \<and> db \<noteq> dp"
proof -
  from index_entry [OF idx b] obtain kb ub where
    ub: "url_of h b = Some ub" and kb: "key_of h b = Some kb" by blast
  from url_key_heap [OF ub kb] obtain eb where
    eb: "h b = Some (Element eb)" "url eb = Some ub" "h ub = Some (CString kb)" by blast
  from pay b have "payload_ok h b" by (simp add: payloads_ok_def)
  from payload_heap [OF this] eb obtain db bsb where
    db: "data eb = Some db" "h db = Some (Buffer bsb)" by auto
  have "url_of h a = Some u" "data_of h a = Some dp"
    using ha ue de by (simp_all add: url_of_def data_of_def)
  moreover have "data_of h b = Some db"
    using eb db by (simp add: data_of_def)
  ultimately have "ub \<noteq> u" "db \<noteq> dp"
    using index_url_inj [OF idx b a] ub ba pay a b by (auto simp: payloads_ok_def)
  with eb db show ?thesis by blast
qed

lemma view_others:
  assumes idx: "index_ok h m es" and pay: "payloads_ok h es"
    and a: "a \<in> set es" and b: "b \<in> set es" and ba: "b \<noteq> a"
    and ha: "h a = Some (Element e)" and ue: "url e = Some u" and de: "data e = Some dp"
    and same: "\<And>x. x \<noteq> a \<Longrightarrow> x \<noteq> u \<Longrightarrow> x \<noteq> dp \<Longrightarrow> h x \<noteq> None \<Longrightarrow> h' x = h x"
  shows "entry_view h' b = entry_view h b" "h' b = h b"
proof -
  from others_footprint [OF idx pay a b ba ha ue de] obtain eb ub kb db bsb where
    f: "h b = Some (Element eb)" "url eb = Some ub" "h ub = Some (CString kb)"
      "data eb = Some db" "h db = Some (Buffer bsb)" "ub \<noteq> u" "db \<noteq> dp"
    by blast
  have hu: "\<exists>k. h u = Some (CString k)"
    using index_entry [OF idx a] url_key_heap [of h a u] ha ue by (auto simp: url_of_def)
  have hd: "\<exists>bs. h dp = Some (Buffer bs)"
    using pay a payload_heap [of h a] ha de by (auto simp: payloads_ok_def)
  show hb: "h' b = h b"
    using f ha hu hd ba by (intro same) auto
  show "entry_view h' b = entry_view h b"
  proof (rule view_frame)
    show "h' b = h b" by (rule hb)
  next
    fix x assume "url_of h b = Some x"
    with f have "x = ub" by (simp add: url_of_def)
    with f ha hd show "h' x = h x" by (intro same) auto
  next
    fix x assume "data_of h b = Some x"
    with f have "x = db" by (simp add: data_of_def)
    with f ha hu show "h' x = h x" by (intro same) auto
  qed
qed

lemma update_tail:
  assumes get: "heap s a = Some (Element el)"
    and loop: "evict_loop n (s\<lparr>current_size := current_size s - len el\<rparr>) = Some (Inr s1)"
    and inv1: "struct_inv s1 es1" and a: "a \<in> set es1"
    and sz1: "unat (current_size s1) + unat (elem_len (heap s1) a) = total_len (heap s1) es1"
    and fit: "unat (current_size s1) + unat n \<le> 100" and n0: "n \<noteq> 0"
  shows "if \<not> update_alloc_ok plan (heap s1) a then
       (\<exists>s'. cache_add_update plan a d n s = Some (Inr s') \<and> cache_inv s' (remove1 a es1) \<and>
          heap s' a = None \<and>
          (\<forall>k. key_of (heap s1) a = Some k \<longrightarrow> map_find (map_tbl s') k = None) \<and>
          current_size s' = current_size s1 \<and>
          (\<forall>b\<in>set (remove1 a es1). entry_view (heap s') b = entry_view (heap s1) b) \<and>
          set (map_tbl s') \<subseteq> set (map_tbl s1))
     else if length d < unat n then cache_add_update plan a d n s = Some (Inl BufferOverrun)
     else (\<exists>s'. cache_add_update plan a d n s = Some (Inr s') \<and> cache_inv s' (a # remove1 a es1) \<and>
          key_of (heap s') a = key_of (heap s1) a \<and>
          payload_of (heap s') a = Some (take (unat n) d) \<and> elem_len (heap s') a = n \<and>
          map_tbl s' = map_tbl s1 \<and> current_size s' = current_size s1 + n \<and>
          (\<forall>b\<in>set (remove1 a es1). entry_view (heap s') b = entry_view (heap s1) b))"
proof -
  from inv1 have seg1: "dseg (heap s1) None (head s1) es1 (tail s1) None" and dist1: "distinct es1"
    and idx1: "index_ok (heap s1) (map_tbl s1) es1" and pay1: "payloads_ok (heap s1) es1"
    by (simp_all add: struct_inv_def)
  from a obtain xs ys where es1: "es1 = xs @ a # ys"
    by (auto dest: split_list)
  with dist1 have rm: "remove1 a es1 = xs @ ys" and nin: "a \<notin> set (xs @ ys)"
    and d2: "distinct (xs @ ys)" and sub: "set (xs @ ys) = set es1 - {a}"
    by (auto simp: remove1_append)
  from detach_ok [of s1 xs a ys] seg1 dist1 es1 obtain s2 where
    det: "detach_node_unlocked (Some a) s1 = Inr s2"
    and seg2: "dseg (heap s2) None (head s2) (xs @ ys) (tail s2) None"
    and sc2: "same_content (heap s1) (heap s2)"
    and fr2: "map_tbl s2 = map_tbl s1" "current_size s2 = current_size s1" "mutex s2 = mutex s1"
    by auto
  define h2 where "h2 = heap s2"
  have idx2: "index_ok h2 (map_tbl s1) es1" and pay2: "payloads_ok h2 es1"
    using idx1 pay1 by (simp_all add: same_content_invs [OF sc2] h2_def)
  have tot2: "total_len h2 zs = total_len (heap s1) zs" for zs
    by (simp add: same_content_invs [OF sc2] h2_def)
  have vw2: "entry_view h2 b = entry_view (heap s1) b" for b
    by (simp add: same_content_view [OF sc2] h2_def)
  from pay2 a have "payload_ok h2 a" by (simp add: payloads_ok_def)
  from payload_heap [OF this] obtain e2 dp bs where
    ha: "h2 a = Some (Element e2)" and de: "data e2 = Some dp" and hdp: "h2 dp = Some (Buffer bs)"
    by blast
  from index_entry [OF idx2 a] obtain k u where
    ua: "url_of h2 a = Some u" and ka: "key_of h2 a = Some k"
    and mk: "map_of (map_tbl s1) k = Some (u, a)" by blast
  from url_key_heap [OF ua ka] ha have ue: "url e2 = Some u" and hu: "h2 u = Some (CString k)"
    by auto
  have neq: "a \<noteq> dp" "a \<noteq> u" "u \<noteq> dp"
    using ha hdp hu by auto
  have len2: "elem_len (heap s1) a = len e2"
    using ha vw2 [of a] by (simp add: entry_view_eq elem_len_def)
  have ka1: "key_of (heap s1) a = Some k"
    using ka vw2 [of a] by (simp add: entry_view_eq)
  have da1: "data_of (heap s1) a = Some dp"
    using ha de vw2 [of a] by (simp add: entry_view_eq data_of_def)
  have live12: "heap s1 x = None \<longleftrightarrow> h2 x = None" for x
    using same_content_None [OF sc2, of x] by (simp add: h2_def)
  define h3 where "h3 = h2(dp := None)"
  have g2: "get_element (heap s2) a = Inr e2"
    using ha by (simp add: get_element_ok h2_def)
  have fr: "free (data e2) (heap s2) = Inr h3"
    using de hdp by (simp add: free_def h3_def h2_def)
  have cs1: "unat (current_size s1) = total_len h2 (xs @ ys)"
    using sz1 by (simp add: es1 tot2 len2 [symmetric])
  have n100: "unat n \<le> 100" and c100: "unat (current_size s1) \<le> 100"
    using fit by simp_all
  have pre: "cache_add_update plan a d n s =
      Some (case malloc (malloc_at plan) n h3 of
             (p, h4) \<Rightarrow>
               (case put_element a (\<lambda>x. x\<lparr>data := p\<rparr>) h4 of
                  Inl e \<Rightarrow> Inl e
                | Inr h5 \<Rightarrow>
                    if p = None
                    then (case map_erase (url e2) (s2\<lparr>heap := h5\<rparr>) of
                            Inl e \<Rightarrow> Inl e
                          | Inr s6 \<Rightarrow> Inr (mutex_unlock s6))
                    else (case memcpy p d n h5 of
                            Inl e \<Rightarrow> Inl e
                          | Inr h6 \<Rightarrow>
                              (case put_element a (\<lambda>x. x\<lparr>len := n\<rparr>) h6 of
                                 Inl e \<Rightarrow> Inl e
                               | Inr h7 \<Rightarrow>
                                   (case attach_node_to_head_unlocked (Some a)
                                           (s2\<lparr>current_size := current_size s2 + n, heap := h7\<rparr>) of
                                      Inl e \<Rightarrow> Inl e
                                    | Inr s8 \<Rightarrow> Inr (mutex_unlock s8))))))"
    using get loop det g2 fr by (simp add: cache_add_update_def get_element_ok)
  have ok_iff: "update_alloc_ok plan (heap s1) a \<longleftrightarrow> (\<exists>c. malloc_at plan = Some c \<and> h3 c = None)"
    by (auto simp: update_alloc_ok_def da1 live12 h3_def split: option.splits)
  show ?thesis
  proof (cases "update_alloc_ok plan (heap s1) a")
    case False
    then have m: "malloc (malloc_at plan) n h3 = (None, h3)"
      by (auto simp: ok_iff malloc_def alloc_def split: option.splits)
    define h5 where "h5 = h3(a \<mapsto> Element (e2\<lparr>data := None\<rparr>))"
    have p: "put_element a (\<lambda>x. x\<lparr>data := None\<rparr>) h3 = Inr h5"
      using ha neq by (simp add: put_element_def h3_def h5_def)
    define h6 where "h6 = (\<lambda>b. if b = a \<or> b = u then None else h5 b)"
    define s6 where "s6 = s2\<lparr>heap := h5, map_tbl := filter (\<lambda>x. fst x \<noteq> k) (map_tbl s1), heap := h6\<rparr>"
    have h5a: "h5 a = Some (Element (e2\<lparr>data := None\<rparr>))" and h5u: "h5 u = Some (CString k)"
      using neq hu by (simp_all add: h5_def h3_def)
    have "map_erase (url (e2\<lparr>data := None\<rparr>)) (s2\<lparr>heap := h5\<rparr>) =
       Inr ((s2\<lparr>heap := h5\<rparr>)\<lparr>map_tbl := filter (\<lambda>x. fst x \<noteq> k) (map_tbl (s2\<lparr>heap := h5\<rparr>)),
              heap := (\<lambda>b. if b = a \<or> b = u then None else h5 b)\<rparr>)"
      using map_erase_direct [where h = h5 and a = a and e = "e2\<lparr>data := None\<rparr>" and u = u
          and k = k and s = "s2\<lparr>heap := h5\<rparr>"] h5a h5u ue mk fr2
      by simp
    then have er: "map_erase (url e2) (s2\<lparr>heap := h5\<rparr>) = Inr s6"
      using fr2 by (simp add: s6_def h6_def)
    define s' where "s' = mutex_unlock s6"
    have run: "cache_add_update plan a d n s = Some (Inr s')"
      using pre m p er by (simp add: s'_def)
    have fields: "heap s' = h6" "head s' = head s2" "tail s' = tail s2" "\<not> mutex s'"
      "map_tbl s' = filter (\<lambda>x. fst x \<noteq> k) (map_tbl s1)" "current_size s' = current_size s1"
      using fr2 by (simp_all add: s'_def s6_def mutex_unlock_def)
    have h6_eq: "h6 x = (if x = a \<or> x = u \<or> x = dp then None else h2 x)" for x
      by (simp add: h6_def h5_def h3_def)
    have vw: "entry_view h6 b = entry_view h2 b" "h6 b = h2 b" if "b \<in> set (xs @ ys)" for b
    proof -
      from that sub have b: "b \<in> set es1" "b \<noteq> a" by auto
      show "entry_view h6 b = entry_view h2 b" "h6 b = h2 b"
        by (rule view_others [OF idx2 pay2 a b ha ue de]; simp add: h6_eq)+
    qed
    have seg': "dseg h6 None (head s2) (xs @ ys) (tail s2) None"
      using seg2 dseg_cong [of "xs @ ys" h6 h2] vw(2) by (simp add: h2_def)
    have "index_ok h2 (filter (\<lambda>x. fst x \<noteq> k) (map_tbl s1)) (xs @ ys)"
      by (rule index_remove [OF idx2 a ka sub])
    then have idx': "index_ok h6 (filter (\<lambda>x. fst x \<noteq> k) (map_tbl s1)) (xs @ ys)"
      using views_cong(1) [of "xs @ ys" h6 h2] vw(1) by simp
    have "payloads_ok h2 (xs @ ys)"
      by (rule payloads_subset [OF pay2]) (use sub in auto)
    then have pay': "payloads_ok h6 (xs @ ys)"
      using views_cong(2) [of "xs @ ys" h6 h2] vw(1) by simp
    have tot': "total_len h6 (xs @ ys) = total_len h2 (xs @ ys)"
      using views_cong(3) [of "xs @ ys" h6 h2] vw(1) by simp
    have inv': "cache_inv s' (remove1 a es1)"
      using seg' d2 idx' pay' tot' cs1 c100
      by (simp add: cache_inv_def struct_inv_def fields rm word_le_nat_alt del: total_len_append)
    have gone: "map_find (map_tbl s') k = None"
      by (auto simp: fields map_find_def map_of_eq_None_iff)
    have "\<forall>b\<in>set (remove1 a es1). entry_view (heap s') b = entry_view (heap s1) b"
      using vw(1) vw2 by (simp add: rm fields)
    moreover have "heap s' a = None" by (simp add: fields h6_eq)
    moreover have "set (map_tbl s') \<subseteq> set (map_tbl s1)" by (auto simp: fields)
    ultimately show ?thesis
      using False run inv' gone ka1 fields(6) by simp
  next
    case True
    then obtain c where c: "malloc_at plan = Some c" "h3 c = None"
      by (auto simp: ok_iff)
    have ca: "c \<noteq> a" "c \<noteq> u"
      using c ha hu neq by (auto simp: h3_def)
    define h4 where "h4 = h3(c \<mapsto> Buffer (replicate (unat n) 0))"
    have m: "malloc (malloc_at plan) n h3 = (Some c, h4)"
      using c by (simp add: malloc_def alloc_def h4_def)
    define h5 where "h5 = h4(a \<mapsto> Element (e2\<lparr>data := Some c\<rparr>))"
    have p: "put_element a (\<lambda>x. x\<lparr>data := Some c\<rparr>) h4 = Inr h5"
      using ha neq ca by (simp add: put_element_def h3_def h4_def h5_def)
    have h5c: "h5 c = Some (Buffer (replicate (unat n) 0))"
      using ca by (simp add: h5_def h4_def)
    show ?thesis
    proof (cases "length d < unat n")
      case short: True
      then have "memcpy (Some c) d n h5 = Inl BufferOverrun"
        using h5c by (simp add: memcpy_def)
      with pre m p short True show ?thesis by simp
    next
      case long: False
      define h6 where "h6 = h5(c \<mapsto> Buffer (take (unat n) d))"
      define h7 where "h7 = h6(a \<mapsto> Element (e2\<lparr>data := Some c, len := n\<rparr>))"
      have mc: "memcpy (Some c) d n h5 = Inr h6"
        using h5c long by (simp add: memcpy_def h6_def)
      have p3: "put_element a (\<lambda>x. x\<lparr>len := n\<rparr>) h6 = Inr h7"
        using ca by (simp add: put_element_def h5_def h6_def h7_def)
      have h7_eq: "h7 x = (if x = a then Some (Element (e2\<lparr>data := Some c, len := n\<rparr>))
          else if x = c then Some (Buffer (take (unat n) d))
          else if x = dp then None else h2 x)" for x
        using ca by (simp add: h3_def h4_def h5_def h6_def h7_def)
      have same: "h7 x = h2 x" if "x \<noteq> a" "x \<noteq> u" "x \<noteq> dp" "h2 x \<noteq> None" for x
        using that c by (auto simp: h7_eq h3_def)
      have vw: "entry_view h7 b = entry_view h2 b" "h7 b = h2 b" if "b \<in> set (xs @ ys)" for b
      proof -
        from that sub have b: "b \<in> set es1" "b \<noteq> a" by auto
        show "entry_view h7 b = entry_view h2 b" "h7 b = h2 b"
          by (rule view_others [OF idx2 pay2 a b ha ue de]; rule same; assumption)+
      qed
      let ?s7 = "s2\<lparr>current_size := current_size s2 + n, heap := h7\<rparr>"
      have seg7: "dseg (heap ?s7) None (head ?s7) (xs @ ys) (tail ?s7) None"
        using seg2 dseg_cong [of "xs @ ys" h7 h2] vw(2) by (simp add: h2_def)
      have "heap ?s7 a = Some (Element (e2\<lparr>data := Some c, len := n\<rparr>))"
        by (simp add: h7_eq)
      from attach_ok [OF seg7 d2 nin this] obtain s8 where
        att: "attach_node_to_head_unlocked (Some a) ?s7 = Inr s8"
        and seg8: "dseg (heap s8) None (head s8) (a # xs @ ys) (tail s8) None"
        and sc8: "same_content h7 (heap s8)"
        and fr8: "map_tbl s8 = map_tbl s1" "current_size s8 = current_size s1 + n" "mutex s8 = mutex s1"
        using fr2 by auto
      define s' where "s' = mutex_unlock s8"
      have run: "cache_add_update plan a d n s = Some (Inr s')"
        using pre m p mc p3 att by (simp add: s'_def)
      have fields: "heap s' = heap s8" "head s' = head s8" "tail s' = tail s8" "\<not> mutex s'"
        "map_tbl s' = map_tbl s1" "current_size s' = current_size s1 + n"
        using fr8 by (simp_all add: s'_def mutex_unlock_def)
      have h7u: "h7 u = Some (CString k)"
        using hu neq ca by (simp add: h7_eq)
      have va7: "url_of h7 a = Some u" "key_of h7 a = Some k" "data_of h7 a = Some c"
        "payload_of h7 a = Some (take (unat n) d)" "elem_len h7 a = n"
        using ue ca h7u by (simp_all add: url_of_def key_of_def data_of_def payload_of_def
            elem_len_def string_at_def bytes_at_def h7_eq)
      have v8: "entry_view (heap s8) b = entry_view h7 b" for b
        by (rule same_content_view [OF sc8])
      have va: "url_of (heap s8) a = Some u" "key_of (heap s8) a = Some k"
        "data_of (heap s8) a = Some c"
        "payload_of (heap s8) a = Some (take (unat n) d)" "elem_len (heap s8) a = n"
        using va7 v8 [of a] by (simp_all add: entry_view_eq)
      have vo: "entry_view (heap s8) b = entry_view h2 b" if "b \<in> set (xs @ ys)" for b
        using vw(1) [OF that] v8 [of b] by simp
      have st: "set (a # xs @ ys) = set es1" using es1 by auto
      have "index_ok (heap s8) (map_tbl s1) es1 = index_ok h2 (map_tbl s1) es1"
      proof (rule index_cong)
        fix b assume b: "b \<in> set es1"
        show "url_of (heap s8) b = url_of h2 b \<and> key_of (heap s8) b = key_of h2 b"
        proof (cases "b = a")
          case True
          with va ua ka show ?thesis by simp
        next
          case False
          with b sub have "b \<in> set (xs @ ys)" by auto
          from vo [OF this] show ?thesis by (simp add: entry_view_eq)
        qed
      qed
      with idx2 have idx': "index_ok (heap s8) (map_tbl s1) (a # xs @ ys)"
        by (simp only: index_ok_set [OF st])
      have dother: "data_of h2 b \<noteq> Some c \<and> data_of h2 b \<noteq> None" if "b \<in> set (xs @ ys)" for b
      proof -
        from that sub have b: "b \<in> set es1" "b \<noteq> a" by auto
        from others_footprint [OF idx2 pay2 a b ha ue de] obtain eb db bsb where
          "h2 b = Some (Element eb)" "data eb = Some db" "h2 db = Some (Buffer bsb)" "db \<noteq> dp"
          by blast
        with c show ?thesis by (auto simp: data_of_def h3_def)
      qed
      have pay': "payloads_ok (heap s8) (a # xs @ ys)"
        unfolding payloads_ok_def
      proof (intro conjI ballI impI)
        fix b assume "b \<in> set (a # xs @ ys)"
        then consider "b = a" | "b \<in> set (xs @ ys)" by auto
        then show "payload_ok (heap s8) b"
        proof cases
          case 1
          then show ?thesis using va long n0 by (simp add: payload_ok_def)
        next
          case 2
          with pay2 sub have "payload_ok h2 b" by (auto simp: payloads_ok_def)
          then show ?thesis using payload_ok_view [OF vo [OF 2]] by simp
        qed
      next
        fix x y assume xy: "x \<in> set (a # xs @ ys)" "y \<in> set (a # xs @ ys)"
          and eq: "data_of (heap s8) x = data_of (heap s8) y"
        have d8: "data_of (heap s8) b = data_of h2 b" if "b \<in> set (xs @ ys)" for b
          using vo [OF that] by (simp add: entry_view_eq)
        from xy consider "x = a" "y = a" | "x = a" "y \<in> set (xs @ ys)" | "x \<in> set (xs @ ys)" "y = a"
          | "x \<in> set (xs @ ys)" "y \<in> set (xs @ ys)" by auto
        then show "x = y"
        proof cases
          case 1
          then show ?thesis by simp
        next
          case 2
          with eq va(3) d8 [of y] dother [of y] show ?thesis by simp
        next
          case 3
          with eq va(3) d8 [of x] dother [of x] show ?thesis by simp
        next
          case 4
          with eq d8 [of x] d8 [of y] have "data_of h2 x = data_of h2 y" by simp
          moreover from 4 sub have "x \<in> set es1" "y \<in> set es1" by auto
          ultimately show ?thesis using pay2 by (simp add: payloads_ok_def)
        qed
      qed
      have tot': "total_len (heap s8) (xs @ ys) = total_len h2 (xs @ ys)"
        by (rule total_len_views) (rule vo)
      have usz: "unat (current_size s1 + n) = unat (current_size s1) + unat n"
        by (rule no_wrap [OF c100 n100])
      have inv': "cache_inv s' (a # remove1 a es1)"
        using seg8 nin d2 idx' pay' tot' cs1 fit usz va(5)
        by (simp add: cache_inv_def struct_inv_def fields rm word_le_nat_alt del: total_len_append)
      have "\<forall>b\<in>set (remove1 a es1). entry_view (heap s') b = entry_view (heap s1) b"
        using vo vw2 by (simp add: rm fields)
      then show ?thesis
        using True long run inv' va ka1 fields by simp
    qed
  qed
qed

lemma struct_inv_cs [simp]: "struct_inv (s\<lparr>current_size := c\<rparr>) es = struct_inv s es"
  by (simp add: struct_inv_def)

lemma unat_small: "m \<le> 100 \<Longrightarrow> unat (of_nat m :: size_t) = m"
  by (simp add: unat_of_nat)

lemma unat_small_add:
  "m \<le> 100 \<Longrightarrow> unat (n :: size_t) \<le> 100 \<Longrightarrow> unat (of_nat m + n) = m + unat n"
  using no_wrap [of "of_nat m" n] by (simp add: unat_small)

lemma update_loop:
  assumes inv: "struct_inv s es" and sz: "unat (current_size s) = total_len (heap s) es"
    and le: "current_size s \<le> MAX_CACHE_SIZE" and es: "es = xs @ a # ys"
    and n: "n \<le> MAX_CACHE_SIZE"
  shows "\<exists>j s1. j \<le> length es \<and>
     evict_loop n (s\<lparr>current_size := current_size s - elem_len (heap s) a\<rparr>) = Some (Inr s1) \<and>
     struct_inv s1 (take j es) \<and>
     (\<forall>b\<in>set (take j es). entry_view (heap s1) b = entry_view (heap s) b) \<and>
     (\<forall>b\<in>set (drop j es). heap s1 b = None) \<and>
     set (map_tbl s1) \<subseteq> set (map_tbl s) \<and> (\<forall>b. heap s b = None \<longrightarrow> heap s1 b = None) \<and>
     mutex s1 = mutex s \<and>
     (length xs < j \<longleftrightarrow> total_len (heap s) xs + unat n \<le> 100) \<and>
     (length xs < j \<longrightarrow>
        unat (current_size s1) + unat (elem_len (heap s1) a) = total_len (heap s1) (take j es) \<and>
        unat (current_size s1) + unat n \<le> 100)"
proof -
  define E where "E = unat (elem_len (heap s) a)"
  define X where "X = total_len (heap s) xs"
  define Y where "Y = total_len (heap s) ys"
  let ?s0 = "s\<lparr>current_size := current_size s - elem_len (heap s) a\<rparr>"
  have T: "total_len (heap s) es = X + E + Y"
    by (simp add: es X_def Y_def E_def)
  have T100: "X + E + Y \<le> 100" and n100: "unat n \<le> 100"
    using le n sz T by (simp_all add: word_le_nat_alt)
  have cs: "current_size s = of_nat (X + E + Y)"
    unfolding T [symmetric] sz [symmetric] by simp
  have e: "elem_len (heap s) a = of_nat E"
    by (simp add: E_def)
  have cs0: "current_size ?s0 = of_nat (X + Y)"
    by (simp add: cs e)
  have inv0: "struct_inv ?s0 es"
    using inv by simp
  show ?thesis
  proof (cases "MAX_CACHE_SIZE < current_size ?s0 + n")
    case False
    then have run: "evict_loop n ?s0 = Some (Inr ?s0)"
      by (rule evict_loop_stop)
    have "X + Y + unat n \<le> 100"
      using False T100 n100 unfolding cs0 by (simp add: word_less_nat_alt unat_small_add del: of_nat_add)
    moreover have "unat (current_size ?s0) = X + Y"
      using T100 by (simp only: cs0 unat_small)
    ultimately show ?thesis
      using run inv0 T
      by (intro exI [of _ "length es"] exI [of _ ?s0]) (simp add: es X_def E_def)
  next
    case True
    then have big: "100 < X + Y + unat n"
      using T100 n100 unfolding cs0 by (simp add: word_less_nat_alt unat_small_add del: of_nat_add)
    with T100 have En: "E < unat n" by simp
    have eq: "current_size ?s0 - of_nat (total_len (heap ?s0) es) + n = n - of_nat E"
      by (simp add: cs T e)
    have bound: "unat (n - of_nat E :: size_t) \<le> 100"
    proof -
      have "(of_nat E :: size_t) \<le> n"
        using En T100 by (simp add: word_le_nat_alt unat_small)
      then have "unat (n - of_nat E :: size_t) = unat n - unat (of_nat E :: size_t)"
        by (rule unat_sub)
      with n100 show ?thesis by simp
    qed
    have "\<not> MAX_CACHE_SIZE < current_size ?s0 - of_nat (total_len (heap ?s0) es) + n"
      unfolding eq word_less_nat_alt using bound by simp
    from evict_loop_ok [OF inv0 this] obtain j s1 where
      j: "j \<le> length es" and run: "evict_loop n ?s0 = Some (Inr s1)"
      and inv1: "struct_inv s1 (take j es)"
      and cs1: "current_size s1 = current_size ?s0 - of_nat (total_len (heap s) (drop j es))"
      and stop: "\<not> MAX_CACHE_SIZE < current_size s1 + n"
      and stages: "\<forall>i. j < i \<and> i \<le> length es \<longrightarrow>
        MAX_CACHE_SIZE < current_size ?s0 - of_nat (total_len (heap s) (drop i es)) + n"
      and vw: "\<forall>b\<in>set (take j es). entry_view (heap s1) b = entry_view (heap s) b"
      and rest: "\<forall>b\<in>set (drop j es). heap s1 b = None" "set (map_tbl s1) \<subseteq> set (map_tbl s)"
        "\<forall>b. heap s b = None \<longrightarrow> heap s1 b = None" "mutex s1 = mutex s"
      by auto
    have gone: "\<not> X + unat n \<le> 100" if "j \<le> length xs"
    proof -
      from that have "j < Suc (length xs) \<and> Suc (length xs) \<le> length es"
        by (simp add: es)
      with stages have "MAX_CACHE_SIZE < current_size ?s0 - of_nat (total_len (heap s) (drop (Suc (length xs)) es)) + n"
        by blast
      moreover have "drop (Suc (length xs)) es = ys" by (simp add: es)
      ultimately have "MAX_CACHE_SIZE < (of_nat X :: size_t) + n"
        by (simp add: cs0 Y_def)
      then show ?thesis
        using T100 n100 by (simp add: word_less_nat_alt unat_small_add)
    qed
    have kept: "unat (current_size s1) + unat (elem_len (heap s1) a) = total_len (heap s1) (take j es) \<and>
        unat (current_size s1) + unat n \<le> 100 \<and> X + unat n \<le> 100" if "length xs < j"
    proof -
      define j' where "j' = j - Suc (length xs)"
      define Y1 where "Y1 = total_len (heap s) (take j' ys)"
      define Y2 where "Y2 = total_len (heap s) (drop j' ys)"
      from that obtain i where i: "j - length xs = Suc i" "j' = i"
        by (cases "j - length xs") (auto simp: j'_def)
      from that have tk: "take j es = xs @ a # take j' ys" and dr: "drop j es = drop j' ys"
        by (simp_all add: es i)
      have Ysplit: "Y = Y1 + Y2"
        using total_len_append [of "heap s" "take j' ys" "drop j' ys"] by (simp add: Y_def Y1_def Y2_def)
      have c1: "current_size s1 = of_nat (X + Y1)"
        by (simp add: cs1 cs0 dr Ysplit Y2_def [symmetric])
      have u1: "unat (current_size s1) = X + Y1"
        using T100 Ysplit by (simp only: c1) (simp add: unat_small del: of_nat_add)
      have "unat (current_size s1 + n) = X + Y1 + unat n"
        using T100 Ysplit n100 by (simp only: c1) (simp add: unat_small_add del: of_nat_add)
      with stop have fit: "X + Y1 + unat n \<le> 100"
        by (simp add: word_less_nat_alt)
      have "total_len (heap s1) (take j es) = total_len (heap s) (take j es)"
        using vw by (intro total_len_views) simp
      then have t1: "total_len (heap s1) (take j es) = X + E + Y1"
        by (simp add: tk X_def E_def Y1_def)
      have "a \<in> set (take j es)" by (simp add: tk)
      with vw have "elem_len (heap s1) a = elem_len (heap s) a"
        by (simp add: entry_view_eq)
      with u1 t1 fit show ?thesis by (simp add: E_def)
    qed
    have iff: "length xs < j \<longleftrightarrow> X + unat n \<le> 100"
      using gone kept by (cases "length xs < j") auto
    show ?thesis
      using j run inv1 vw rest iff kept unfolding X_def by blast
  qed
qed

lemma insert_allocs_ok_mono:
  "insert_allocs_ok plan h \<Longrightarrow> (\<And>b. h b = None \<Longrightarrow> h' b = None) \<Longrightarrow> insert_allocs_ok plan h'"
  by (auto simp: insert_allocs_ok_def split: option.splits)

lemma cache_add_valid:
  "n \<noteq> 0 \<Longrightarrow> n \<le> MAX_CACHE_SIZE \<Longrightarrow> \<not> mutex s \<Longrightarrow>
   cache_add plan (Some k) (Some d) n s =
     (case map_find (map_tbl s) k of
        Some a \<Rightarrow> cache_add_update plan a d n (s\<lparr>mutex := True\<rparr>)
      | None \<Rightarrow> cache_add_insert plan k d n (s\<lparr>mutex := True\<rparr>))"
  using leD [of n MAX_CACHE_SIZE] by (simp add: cache_add_def mutex_lock_def)

lemma cache_add_insert_path:
  assumes inv: "cache_inv s es" and absent: "map_find (map_tbl s) k = None"
    and n0: "n \<noteq> 0" and n: "n \<le> MAX_CACHE_SIZE"
  shows "\<exists>j s1. j \<le> length es \<and> evict_loop n (s\<lparr>mutex := True\<rparr>) = Some (Inr s1) \<and>
     cache_inv (mutex_unlock s1) (take j es) \<and>
     total_len (heap s) (take j es) + unat n \<le> 100 \<and>
     (\<forall>i. j < i \<and> i \<le> length es \<longrightarrow> 100 < total_len (heap s) (take i es) + unat n) \<and>
     (\<forall>b\<in>set (take j es). entry_view (heap s1) b = entry_view (heap s) b) \<and>
     (\<forall>b\<in>set (drop j es). heap s1 b = None) \<and>
     (\<forall>b. heap s b = None \<longrightarrow> heap s1 b = None) \<and>
     set (map_tbl s1) \<subseteq> set (map_tbl s) \<and>
     (if \<not> insert_allocs_ok plan (heap s1)
      then cache_add plan (Some k) (Some d) n s = Some (Inr (mutex_unlock s1))
      else if length d < unat n
      then cache_add plan (Some k) (Some d) n s = Some (Inl BufferOverrun)
      else (\<exists>s' ne up. cache_add plan (Some k) (Some d) n s = Some (Inr s') \<and>
         calloc_at plan = Some ne \<and> strdup_at plan = Some up \<and>
         cache_inv s' (ne # take j es) \<and>
         map_tbl s' = (k, up, ne) # map_tbl s1 \<and>
         current_size s' = current_size s1 + n \<and>
         key_of (heap s') ne = Some k \<and> payload_of (heap s') ne = Some (take (unat n) d) \<and>
         elem_len (heap s') ne = n \<and>
         (\<forall>b\<in>set (take j es). entry_view (heap s') b = entry_view (heap s) b)))"
proof -
  let ?s = "s\<lparr>mutex := True\<rparr>"
  from inv have sinv: "struct_inv ?s es" and sz: "unat (current_size ?s) = total_len (heap ?s) es"
    and le: "current_size ?s \<le> MAX_CACHE_SIZE" and mx: "\<not> mutex s"
    by (simp_all add: cache_inv_def)
  from evict_loop_insert [OF sinv sz le n] obtain j s1 where
    j: "j \<le> length es" and loop: "evict_loop n ?s = Some (Inr s1)"
    and inv1: "struct_inv s1 (take j es)"
    and sz1: "unat (current_size s1) = total_len (heap s1) (take j es)"
    and fit: "unat (current_size s1) + unat n \<le> 100"
    and stages: "\<forall>i. j < i \<and> i \<le> length es \<longrightarrow> 100 < total_len (heap s) (take i es) + unat n"
    and vw: "\<forall>b\<in>set (take j es). entry_view (heap s1) b = entry_view (heap s) b"
    and fr: "\<forall>b\<in>set (drop j es). heap s1 b = None"
    and mp: "set (map_tbl s1) \<subseteq> set (map_tbl s)"
    and nn: "\<forall>b. heap s b = None \<longrightarrow> heap s1 b = None"
    by auto
  have t1: "total_len (heap s1) (take j es) = total_len (heap s) (take j es)"
    using vw by (intro total_len_views) simp
  have inv1': "cache_inv (mutex_unlock s1) (take j es)"
    using inv1 sz1 fit by (simp add: cache_inv_def mutex_unlock_def word_le_nat_alt struct_inv_def)
  have absent1: "map_find (map_tbl s1) k = None"
    using absent mp by (auto simp: map_find_def map_of_eq_None_iff)
  have add: "cache_add plan (Some k) (Some d) n s = cache_add_insert plan k d n ?s"
    using absent by (simp add: cache_add_valid [OF n0 n mx])
  have fit0: "total_len (heap s) (take j es) + unat n \<le> 100"
    using fit sz1 t1 by simp
  have branch: "if \<not> insert_allocs_ok plan (heap s1)
      then cache_add plan (Some k) (Some d) n s = Some (Inr (mutex_unlock s1))
      else if length d < unat n
      then cache_add plan (Some k) (Some d) n s = Some (Inl BufferOverrun)
      else (\<exists>s' ne up. cache_add plan (Some k) (Some d) n s = Some (Inr s') \<and>
         calloc_at plan = Some ne \<and> strdup_at plan = Some up \<and>
         cache_inv s' (ne # take j es) \<and>
         map_tbl s' = (k, up, ne) # map_tbl s1 \<and>
         current_size s' = current_size s1 + n \<and>
         key_of (heap s') ne = Some k \<and> payload_of (heap s') ne = Some (take (unat n) d) \<and>
         elem_len (heap s') ne = n \<and>
         (\<forall>b\<in>set (take j es). entry_view (heap s') b = entry_view (heap s) b))"
  proof (cases "insert_allocs_ok plan (heap s1)")
    case False
    with insert_alloc_fail [OF loop False] add show ?thesis by simp
  next
    case True
    note ok = this
    show ?thesis
    proof (cases "length d < unat n")
      case True
      with insert_success [OF loop inv1 sz1 fit absent1 ok n0, of d] add ok show ?thesis
        by simp
    next
      case False
      with insert_success [OF loop inv1 sz1 fit absent1 ok n0, of d] obtain s' ne up where
        run: "cache_add_insert plan k d n ?s = Some (Inr s')"
        and pl: "calloc_at plan = Some ne" "strdup_at plan = Some up"
        and inv': "cache_inv s' (ne # take j es)"
        and rest: "map_tbl s' = (k, up, ne) # map_tbl s1" "current_size s' = current_size s1 + n"
          "key_of (heap s') ne = Some k" "payload_of (heap s') ne = Some (take (unat n) d)"
          "elem_len (heap s') ne = n"
        and vw': "\<forall>b\<in>set (take j es). entry_view (heap s') b = entry_view (heap s1) b"
        and live: "\<forall>x. heap s1 x \<noteq> None \<longrightarrow> heap s' x \<noteq> None"
        by auto
      have 1: "\<forall>b\<in>set (take j es). entry_view (heap s') b = entry_view (heap s) b"
        using vw vw' by simp
      from False ok add run pl inv' rest 1 show ?thesis by auto
    qed
  qed
  from j loop inv1' fit0 stages vw fr nn mp branch show ?thesis by blast
qed

lemma update_evicted:
  assumes get: "heap s a = Some (Element el)"
    and loop: "evict_loop n (s\<lparr>current_size := current_size s - len el\<rparr>) = Some (Inr s1)"
    and gone: "heap s1 a = None"
  shows "cache_add_update plan a d n s = Some (Inl InvalidPointer)"
  using get loop gone
  by (simp add: cache_add_update_def get_element_ok detach_node_unlocked_def get_element_def)

lemma hit_in_list:
  assumes "cache_inv s es" "map_find (map_tbl s) k = Some a"
  shows "\<exists>xs ys. es = xs @ a # ys"
proof -
  from assms(2) obtain u where "map_of (map_tbl s) k = Some (u, a)"
    by (auto simp: map_find_Some)
  with assms(1) index_lookup [of "heap s" "map_tbl s" es k u a] have "a \<in> set es"
    by (simp add: cache_inv_def struct_inv_def)
  then show ?thesis by (auto dest: split_list)
qed

lemma cache_add_update_path:
  assumes inv: "cache_inv s es" and hit: "map_find (map_tbl s) k = Some a"
    and es: "es = xs @ a # ys"
    and n0: "n \<noteq> 0" and n: "n \<le> MAX_CACHE_SIZE"
  shows "\<exists>j s1. j \<le> length es \<and>
     evict_loop n (s\<lparr>mutex := True, current_size := current_size s - elem_len (heap s) a\<rparr>) = Some (Inr s1) \<and>
     struct_inv s1 (take j es) \<and> (\<forall>b\<in>set (drop j es). heap s1 b = None) \<and>
     (\<forall>b\<in>set (take j es). entry_view (heap s1) b = entry_view (heap s) b) \<and>
     (length xs < j \<longleftrightarrow> total_len (heap s) xs + unat n \<le> 100) \<and>
     (if \<not> length xs < j
      then cache_add plan (Some k) (Some d) n s = Some (Inl InvalidPointer)
      else if \<not> update_alloc_ok plan (heap s1) a
      then (\<exists>s'. cache_add plan (Some k) (Some d) n s = Some (Inr s') \<and>
         cache_inv s' (remove1 a (take j es)) \<and> heap s' a = None \<and>
         map_find (map_tbl s') k = None \<and>
         (\<forall>b\<in>set (remove1 a (take j es)). entry_view (heap s') b = entry_view (heap s) b))
      else if length d < unat n
      then cache_add plan (Some k) (Some d) n s = Some (Inl BufferOverrun)
      else (\<exists>s'. cache_add plan (Some k) (Some d) n s = Some (Inr s') \<and>
         cache_inv s' (a # remove1 a (take j es)) \<and>
         key_of (heap s') a = Some k \<and> payload_of (heap s') a = Some (take (unat n) d) \<and>
         elem_len (heap s') a = n \<and>
         (\<forall>b\<in>set (remove1 a (take j es)). entry_view (heap s') b = entry_view (heap s) b)))"
proof -
  let ?s = "s\<lparr>mutex := True\<rparr>"
  from inv have sinv: "struct_inv ?s es" and sz: "unat (current_size ?s) = total_len (heap ?s) es"
    and le: "current_size ?s \<le> MAX_CACHE_SIZE" and mx: "\<not> mutex s"
    and idx: "index_ok (heap s) (map_tbl s) es"
    and seg: "dseg (heap s) None (head s) es (tail s) None"
    by (simp_all add: cache_inv_def struct_inv_def)
  from hit obtain u where mk: "map_of (map_tbl s) k = Some (u, a)"
    by (auto simp: map_find_Some)
  from index_lookup [OF idx mk] have a: "a \<in> set es" and ka: "key_of (heap s) a = Some k"
    by simp_all
  from dseg_live [OF seg a] obtain el where el: "heap s a = Some (Element el)"
    by blast
  then have len: "elem_len (heap s) a = len el"
    by (simp add: elem_len_def)
  have add: "cache_add plan (Some k) (Some d) n s = cache_add_update plan a d n ?s"
    using hit by (simp add: cache_add_valid [OF n0 n mx])
  from update_loop [OF sinv sz le es n] obtain j s1 where
    j: "j \<le> length es"
    and loop: "evict_loop n (?s\<lparr>current_size := current_size ?s - elem_len (heap ?s) a\<rparr>) = Some (Inr s1)"
    and inv1: "struct_inv s1 (take j es)"
    and vw: "\<forall>b\<in>set (take j es). entry_view (heap s1) b = entry_view (heap s) b"
    and fr: "\<forall>b\<in>set (drop j es). heap s1 b = None"
    and iff: "length xs < j \<longleftrightarrow> total_len (heap s) xs + unat n \<le> 100"
    and kept: "length xs < j \<longrightarrow>
        unat (current_size s1) + unat (elem_len (heap s1) a) = total_len (heap s1) (take j es) \<and>
        unat (current_size s1) + unat n \<le> 100"
    by auto
  have loop': "evict_loop n (?s\<lparr>current_size := current_size ?s - len el\<rparr>) = Some (Inr s1)"
    using loop len by simp
  have el': "heap ?s a = Some (Element el)"
    using el by simp
  have branch: "if \<not> length xs < j
      then cache_add plan (Some k) (Some d) n s = Some (Inl InvalidPointer)
      else if \<not> update_alloc_ok plan (heap s1) a
      then (\<exists>s'. cache_add plan (Some k) (Some d) n s = Some (Inr s') \<and>
         cache_inv s' (remove1 a (take j es)) \<and> heap s' a = None \<and>
         map_find (map_tbl s') k = None \<and>
         (\<forall>b\<in>set (remove1 a (take j es)). entry_view (heap s') b = entry_view (heap s) b))
      else if length d < unat n
      then cache_add plan (Some k) (Some d) n s = Some (Inl BufferOverrun)
      else (\<exists>s'. cache_add plan (Some k) (Some d) n s = Some (Inr s') \<and>
         cache_inv s' (a # remove1 a (take j es)) \<and>
         key_of (heap s') a = Some k \<and> payload_of (heap s') a = Some (take (unat n) d) \<and>
         elem_len (heap s') a = n \<and>
         (\<forall>b\<in>set (remove1 a (take j es)). entry_view (heap s') b = entry_view (heap s) b))"
  proof (cases "length xs < j")
    case False
    then have "a \<in> set (drop j es)"
      by (simp add: es)
    with fr have "heap s1 a = None" by simp
    from update_evicted [OF el' loop' this] add False show ?thesis by simp
  next
    case True
    then obtain i where "j - length xs = Suc i"
      by (cases "j - length xs") auto
    with True have a1: "a \<in> set (take j es)"
      by (simp add: es)
    from True kept have
      sz1: "unat (current_size s1) + unat (elem_len (heap s1) a) = total_len (heap s1) (take j es)"
      and fit: "unat (current_size s1) + unat n \<le> 100"
      by simp_all
    have ka1: "key_of (heap s1) a = Some k"
      using vw a1 ka by (simp add: entry_view_eq)
    have others: "entry_view (heap s1) b = entry_view (heap s) b" if "b \<in> set (remove1 a (take j es))" for b
      using vw that notin_set_remove1 [of b "take j es" a] by auto
    note tail = update_tail [OF el' loop' inv1 a1 sz1 fit n0, of plan d]
    show ?thesis
    proof (cases "update_alloc_ok plan (heap s1) a")
      case False
      with tail obtain s' where
        "cache_add_update plan a d n ?s = Some (Inr s')" "cache_inv s' (remove1 a (take j es))"
        "heap s' a = None" "map_find (map_tbl s') k = None"
        "\<forall>b\<in>set (remove1 a (take j es)). entry_view (heap s') b = entry_view (heap s1) b"
        using ka1 by auto
      with True False add others show ?thesis by auto
    next
      case ok: True
      show ?thesis
      proof (cases "length d < unat n")
        case short: True
        with tail ok True add show ?thesis by simp
      next
        case False
        with tail ok obtain s' where
          "cache_add_update plan a d n ?s = Some (Inr s')" "cache_inv s' (a # remove1 a (take j es))"
          "key_of (heap s') a = key_of (heap s1) a"
          "payload_of (heap s') a = Some (take (unat n) d)" "elem_len (heap s') a = n"
          "\<forall>b\<in>set (remove1 a (take j es)). entry_view (heap s') b = entry_view (heap s1) b"
          by auto
        with True False ok add others ka1 show ?thesis by auto
      qed
    qed
  qed
  have loop0: "evict_loop n (s\<lparr>mutex := True, current_size := current_size s - elem_len (heap s) a\<rparr>) = Some (Inr s1)"
    using loop by simp
  from j loop0 inv1 fr vw iff branch show ?thesis by blast
qed

lemma cache_add_preserves:
  assumes inv: "cache_inv s es" and run: "cache_add plan url' data' n s = Some (Inr s')"
  shows "\<exists>es'. cache_inv s' es'"
proof (cases "url' = None \<or> data' = None \<or> n = 0 \<or> MAX_CACHE_SIZE < n")
  case True
  then have "cache_add plan url' data' n s = Some (Inr s)"
    by (auto simp: cache_add_def split: option.splits)
  with run inv show ?thesis by auto
next
  case False
  then obtain k d where v: "url' = Some k" "data' = Some d" "n \<noteq> 0" "n \<le> MAX_CACHE_SIZE"
    by (auto simp: not_less)
  show ?thesis
  proof (cases "map_find (map_tbl s) k")
    case None
    from cache_add_insert_path [OF inv None v(3,4), of plan d] run v show ?thesis
      by (auto split: if_splits)
  next
    case (Some a)
    from hit_in_list [OF inv Some] obtain xs ys where es: "es = xs @ a # ys" by blast
    from cache_add_update_path [OF inv Some es v(3,4), of plan d] run v show ?thesis
      by (auto split: if_splits)
  qed
qed

lemma cache_add_returns:
  assumes inv: "cache_inv s es"
  shows "\<exists>r. cache_add plan url' data' n s = Some r"
proof (cases "url' = None \<or> data' = None \<or> n = 0 \<or> MAX_CACHE_SIZE < n")
  case True
  then show ?thesis
    by (auto simp: cache_add_def split: option.splits)
next
  case False
  then obtain k d where v: "url' = Some k" "data' = Some d" "n \<noteq> 0" "n \<le> MAX_CACHE_SIZE"
    by (auto simp: not_less)
  show ?thesis
  proof (cases "map_find (map_tbl s) k")
    case None
    from cache_add_insert_path [OF inv None v(3,4), of plan d] v show ?thesis
      by (auto split: if_splits)
  next
    case (Some a)
    from hit_in_list [OF inv Some] obtain xs ys where es: "es = xs @ a # ys" by blast
    from cache_add_update_path [OF inv Some es v(3,4), of plan d] v show ?thesis
      by (auto split: if_splits)
  qed
qed

lemma cache_find_preserves:
  assumes inv: "cache_inv s es" and run: "cache_find url' s = Some (Inr (r, s'))"
  shows "\<exists>es'. cache_inv s' es'"
proof (cases url')
  case None
  with run inv show ?thesis by (auto simp: cache_find_def)
next
  case (Some k)
  from inv have mx: "\<not> mutex s" by (simp add: cache_inv_def)
  show ?thesis
  proof (cases "map_find (map_tbl s) k")
    case None
    from cache_find_miss [OF mx None] run Some inv show ?thesis by auto
  next
    case (Some a)
    from cache_find_hit [OF inv Some] run \<open>url' = Some k\<close> show ?thesis by auto
  qed
qed

lemma run_preserves:
  "cache_inv s es \<Longrightarrow> run ops s = Some (Inr s') \<Longrightarrow> \<exists>es'. cache_inv s' es'"
proof (induction ops arbitrary: s es)
  case Nil
  then show ?case by auto
next
  case (Cons x ops)
  show ?case
  proof (cases x)
    case (Add plan u d n)
    with Cons.prems(2) obtain s1 where
      1: "cache_add plan u d n s = Some (Inr s1)" and 2: "run ops s1 = Some (Inr s')"
      by (auto split: option.splits sum.splits)
    from cache_add_preserves [OF Cons.prems(1) 1] obtain es1 where "cache_inv s1 es1" ..
    from Cons.IH [OF this 2] show ?thesis .
  next
    case (Find u)
    with Cons.prems(2) obtain r s1 where
      1: "cache_find u s = Some (Inr (r, s1))" and 2: "run ops s1 = Some (Inr s')"
      by (auto split: option.splits sum.splits)
    from cache_find_preserves [OF Cons.prems(1) 1] obtain es1 where "cache_inv s1 es1" ..
    from Cons.IH [OF this 2] show ?thesis .
  qed
qed

lemma cache_init_inv: "cache_init True h = Inr s \<Longrightarrow> cache_inv s []"
  by (auto simp: cache_init_def cache_inv_def struct_inv_def index_ok_def payloads_ok_def
      MAX_CACHE_SIZE_def)

lemma index_entries_inv: "index_ok h m es \<Longrightarrow> index_entries m = set es"
  by (auto simp: index_ok_def index_entries_def)

lemma cache_inv_total:
  assumes "cache_inv s es"
  shows "unat (current_size s) = index_total s"
proof -
  from assms have idx: "index_ok (heap s) (map_tbl s) es" and dist: "distinct es"
    and sz: "unat (current_size s) = total_len (heap s) es"
    by (simp_all add: cache_inv_def struct_inv_def)
  have "index_total s = (\<Sum>a\<in>set es. unat (elem_len (heap s) a))"
    by (simp add: index_total_def index_entries_inv [OF idx])
  also have "\<dots> = total_len (heap s) es"
    using dist by (simp add: total_len_def sum_list_distinct_conv_sum_set)
  finally show ?thesis using sz by simp
qed

section \<open>The states inside the eviction loop, and calls that return\<close>

lemma struct_total:
  assumes "struct_inv s es"
  shows "index_total s = total_len (heap s) es"
proof -
  from assms have idx: "index_ok (heap s) (map_tbl s) es" and dist: "distinct es"
    by (simp_all add: struct_inv_def)
  have "index_total s = (\<Sum>a\<in>set es. unat (elem_len (heap s) a))"
    by (simp add: index_total_def index_entries_inv [OF idx])
  also have "\<dots> = total_len (heap s) es"
    using dist by (simp add: total_len_def sum_list_distinct_conv_sum_set)
  finally show ?thesis .
qed

lemma visits_invariant:
  assumes "evict_visits n s t" and "I s"
    and "\<And>s s1. I s \<Longrightarrow> MAX_CACHE_SIZE < current_size s + n \<Longrightarrow>
           remove_lru_element_unlocked s = Inr s1 \<Longrightarrow> I s1"
  shows "I t"
  using assms by (induction rule: evict_visits.induct) auto

lemma visits_insert:
  assumes v: "evict_visits n s t" and inv: "struct_inv s es"
    and sz: "unat (current_size s) = total_len (heap s) es"
    and le: "current_size s \<le> MAX_CACHE_SIZE" and n: "n \<le> MAX_CACHE_SIZE"
  shows "\<exists>es'. struct_inv t es' \<and> unat (current_size t) = total_len (heap t) es' \<and>
     current_size t \<le> MAX_CACHE_SIZE"
proof (rule visits_invariant [OF v])
  show "\<exists>es'. struct_inv s es' \<and> unat (current_size s) = total_len (heap s) es' \<and>
     current_size s \<le> MAX_CACHE_SIZE"
    using inv sz le by blast
next
  fix u u1
  assume I: "\<exists>es'. struct_inv u es' \<and> unat (current_size u) = total_len (heap u) es' \<and>
     current_size u \<le> MAX_CACHE_SIZE"
    and cond: "MAX_CACHE_SIZE < current_size u + n"
    and rm: "remove_lru_element_unlocked u = Inr u1"
  from I obtain zs where inv: "struct_inv u zs" and sz: "unat (current_size u) = total_len (heap u) zs"
    and le: "current_size u \<le> MAX_CACHE_SIZE" by blast
  have "zs \<noteq> []"
  proof
    assume "zs = []"
    with sz have "current_size u = 0" by (simp add: unat_eq_0)
    with cond n show False by simp
  qed
  then obtain xs a where zs: "zs = xs @ [a]"
    by (cases zs rule: rev_cases) auto
  from remove_lru_ok [of u xs a] inv zs rm have inv1: "struct_inv u1 xs"
    and cs1: "current_size u1 = current_size u - elem_len (heap u) a"
    and vw: "\<forall>b\<in>set xs. entry_view (heap u1) b = entry_view (heap u) b"
    by auto
  have t1: "total_len (heap u1) xs = total_len (heap u) xs"
    using vw by (intro total_len_views) simp
  have la: "elem_len (heap u) a \<le> current_size u"
    using sz zs by (simp add: word_le_nat_alt)
  have u1: "unat (current_size u1) = total_len (heap u1) xs"
    using sz zs by (simp add: cs1 unat_sub [OF la] t1)
  moreover have "current_size u1 \<le> MAX_CACHE_SIZE"
    using le sz zs u1 t1 by (simp add: word_le_nat_alt)
  ultimately show "\<exists>es'. struct_inv u1 es' \<and> unat (current_size u1) = total_len (heap u1) es' \<and>
     current_size u1 \<le> MAX_CACHE_SIZE"
    using inv1 by blast
qed

lemma visits_update:
  assumes v: "evict_visits n s t" and inv: "struct_inv s (xs @ a # ys)"
    and sz: "unat (current_size s) = total_len (heap s) (xs @ ys)"
    and le: "total_len (heap s) (xs @ a # ys) \<le> 100" and n: "n \<le> MAX_CACHE_SIZE"
    and fit: "total_len (heap s) xs + unat n \<le> 100"
  shows "\<exists>ys'. struct_inv t (xs @ a # ys') \<and> unat (current_size t) = total_len (heap t) (xs @ ys') \<and>
     total_len (heap t) (xs @ a # ys') \<le> 100 \<and> elem_len (heap t) a = elem_len (heap s) a \<and>
     total_len (heap t) xs = total_len (heap s) xs"
proof (rule visits_invariant [OF v])
  show "\<exists>ys'. struct_inv s (xs @ a # ys') \<and> unat (current_size s) = total_len (heap s) (xs @ ys') \<and>
     total_len (heap s) (xs @ a # ys') \<le> 100 \<and> elem_len (heap s) a = elem_len (heap s) a \<and>
     total_len (heap s) xs = total_len (heap s) xs"
    using inv sz le by blast
next
  fix u u1
  assume I: "\<exists>ys'. struct_inv u (xs @ a # ys') \<and> unat (current_size u) = total_len (heap u) (xs @ ys') \<and>
     total_len (heap u) (xs @ a # ys') \<le> 100 \<and> elem_len (heap u) a = elem_len (heap s) a \<and>
     total_len (heap u) xs = total_len (heap s) xs"
    and cond: "MAX_CACHE_SIZE < current_size u + n"
    and rm: "remove_lru_element_unlocked u = Inr u1"
  from I obtain zs where inv: "struct_inv u (xs @ a # zs)"
    and sz: "unat (current_size u) = total_len (heap u) (xs @ zs)"
    and le: "total_len (heap u) (xs @ a # zs) \<le> 100"
    and ea: "elem_len (heap u) a = elem_len (heap s) a"
    and tx: "total_len (heap u) xs = total_len (heap s) xs" by blast
  have n100: "unat n \<le> 100" using n by (simp add: word_le_nat_alt)
  have c100: "unat (current_size u) \<le> 100" using sz le by simp
  have big: "100 < total_len (heap u) (xs @ zs) + unat n"
    using cond no_wrap [OF c100 n100] sz by (simp add: word_less_nat_alt)
  have "zs \<noteq> []"
  proof
    assume "zs = []"
    with big tx fit show False by simp
  qed
  then obtain zs' b where zs: "zs = zs' @ [b]"
    by (cases zs rule: rev_cases) auto
  from inv zs have inv': "struct_inv u ((xs @ a # zs') @ [b])" by simp
  from remove_lru_ok [OF inv'] rm have inv1: "struct_inv u1 (xs @ a # zs')"
    and cs1: "current_size u1 = current_size u - elem_len (heap u) b"
    and vw: "\<forall>c\<in>set (xs @ a # zs'). entry_view (heap u1) c = entry_view (heap u) c"
    by auto
  have t1: "total_len (heap u1) cs = total_len (heap u) cs" if "set cs \<subseteq> set (xs @ a # zs')" for cs
    using vw that by (intro total_len_views) auto
  have lb: "elem_len (heap u) b \<le> current_size u"
    using sz zs by (simp add: word_le_nat_alt)
  have "unat (current_size u1) = total_len (heap u) (xs @ zs')"
    using sz zs by (simp add: cs1 unat_sub [OF lb])
  then have 1: "unat (current_size u1) = total_len (heap u1) (xs @ zs')"
    by (subst t1) auto
  have 2: "total_len (heap u1) (xs @ a # zs') \<le> 100"
    using le zs by (subst t1) auto
  have 3: "elem_len (heap u1) a = elem_len (heap s) a"
    using vw ea by (simp add: entry_view_eq)
  have 4: "total_len (heap u1) xs = total_len (heap s) xs"
    using tx by (subst t1) auto
  from inv1 1 2 3 4
  show "\<exists>ys'. struct_inv u1 (xs @ a # ys') \<and> unat (current_size u1) = total_len (heap u1) (xs @ ys') \<and>
     total_len (heap u1) (xs @ a # ys') \<le> 100 \<and> elem_len (heap u1) a = elem_len (heap s) a \<and>
     total_len (heap u1) xs = total_len (heap s) xs"
    by blast
qed

lemma loop_entry_simps [simp]:
  "heap (loop_entry k s) = heap s" "map_tbl (loop_entry k s) = map_tbl s"
  "head (loop_entry k s) = head s" "tail (loop_entry k s) = tail s" "mutex (loop_entry k s)"
  by (simp_all add: loop_entry_def split: option.splits)

lemma loop_entry_struct [simp]: "struct_inv (loop_entry k s) es = struct_inv s es"
  by (simp add: struct_inv_def)

lemma entry_loop:
  assumes inv: "cache_inv s es" and n: "n \<le> MAX_CACHE_SIZE"
  shows "\<exists>j s1. j \<le> length es \<and> evict_loop n (loop_entry k s) = Some (Inr s1) \<and>
     struct_inv s1 (take j es) \<and>
     current_size s1 = current_size (loop_entry k s) - of_nat (total_len (heap s) (drop j es)) \<and>
     \<not> MAX_CACHE_SIZE < current_size s1 + n \<and>
     (\<forall>i. j < i \<and> i \<le> length es \<longrightarrow>
        MAX_CACHE_SIZE < current_size (loop_entry k s) - of_nat (total_len (heap s) (drop i es)) + n) \<and>
     (\<forall>b\<in>set (take j es). entry_view (heap s1) b = entry_view (heap s) b) \<and>
     (\<forall>b\<in>set (drop j es). heap s1 b = None) \<and> mutex s1"
proof -
  let ?s0 = "loop_entry k s"
  from inv have sinv: "struct_inv ?s0 es" and sz: "unat (current_size s) = total_len (heap s) es"
    and le: "current_size s \<le> MAX_CACHE_SIZE"
    and idx: "index_ok (heap s) (map_tbl s) es"
    by (simp_all add: cache_inv_def struct_inv_def)
  have T100: "total_len (heap s) es \<le> 100" and n100: "unat n \<le> 100"
    using le n sz by (simp_all add: word_le_nat_alt)
  have cs: "current_size s = of_nat (total_len (heap s) es)"
    unfolding sz [symmetric] by simp
  show ?thesis
  proof (cases "MAX_CACHE_SIZE < current_size ?s0 + n")
    case False
    then have "evict_loop n ?s0 = Some (Inr ?s0)"
      by (rule evict_loop_stop)
    with False sinv show ?thesis
      by (intro exI [of _ "length es"] exI [of _ ?s0]) simp
  next
    case True
    have ex: "\<not> MAX_CACHE_SIZE < current_size ?s0 - of_nat (total_len (heap ?s0) es) + n"
    proof (cases "map_find (map_tbl s) k")
      case None
      then have "current_size ?s0 = current_size s" by (simp add: loop_entry_def)
      with n show ?thesis by (simp add: cs)
    next
      case (Some a)
      then obtain u where "map_of (map_tbl s) k = Some (u, a)"
        by (auto simp: map_find_Some)
      from index_lookup [OF idx this] have a: "a \<in> set es" by simp
      then obtain xs ys where es: "es = xs @ a # ys" by (auto dest: split_list)
      define E where "E = elem_len (heap s) a"
      have c0: "current_size ?s0 = current_size s - E"
        using Some by (simp add: loop_entry_def E_def)
      have Ele: "E \<le> current_size s"
        using sz es by (simp add: word_le_nat_alt E_def)
      have u0: "unat (current_size ?s0) = total_len (heap s) es - unat E"
        using sz by (simp add: c0 unat_sub [OF Ele])
      have "unat (current_size ?s0) \<le> 100" using u0 T100 by simp
      from True no_wrap [OF this n100] have "100 < unat (current_size ?s0) + unat n"
        by (simp add: word_less_nat_alt)
      with u0 T100 n100 have En: "unat E < unat n" by arith
      then have "E \<le> n" by (simp add: word_le_nat_alt)
      then have "unat (n - E) = unat n - unat E" by (rule unat_sub)
      with n100 have "unat (n - E) \<le> 100" by simp
      moreover have "current_size ?s0 - of_nat (total_len (heap ?s0) es) + n = n - E"
        by (simp add: c0 cs)
      ultimately show ?thesis
        by (simp add: word_less_nat_alt)
    qed
    from evict_loop_ok [OF sinv ex] obtain j s1 where
      "j \<le> length es" "evict_loop n ?s0 = Some (Inr s1)" "struct_inv s1 (take j es)"
      "current_size s1 = current_size ?s0 - of_nat (total_len (heap ?s0) (drop j es))"
      "\<not> MAX_CACHE_SIZE < current_size s1 + n"
      "\<forall>i. j < i \<and> i \<le> length es \<longrightarrow>
        MAX_CACHE_SIZE < current_size ?s0 - of_nat (total_len (heap ?s0) (drop i es)) + n"
      "\<forall>b\<in>set (take j es). entry_view (heap s1) b = entry_view (heap ?s0) b"
      "\<forall>b\<in>set (drop j es). heap s1 b = None" "mutex s1 = mutex ?s0"
      by (elim exE conjE) (rule that; assumption)
    then show ?thesis
      by (intro exI [of _ j] exI [of _ s1]) simp
  qed
qed

lemma prefix_unique:
  assumes "distinct es" "j \<le> length es" "j' \<le> length es" "set (take j es) = set (take j' es)"
  shows "j = j'"
proof -
  have d: "distinct (take j es)" "distinct (take j' es)"
    using assms(1) by simp_all
  have "j = length (take j es)" using assms(2) by simp
  also have "\<dots> = card (set (take j es))" by (rule distinct_card [OF d(1), symmetric])
  also have "\<dots> = card (set (take j' es))" by (simp only: assms(4))
  also have "\<dots> = length (take j' es)" by (rule distinct_card [OF d(2)])
  also have "\<dots> = j'" using assms(3) by simp
  finally show ?thesis .
qed

lemma cache_find_total:
  assumes inv: "cache_inv s es"
  shows "\<exists>r s' es'. cache_find url' s = Some (Inr (r, s')) \<and> cache_inv s' es'"
proof (cases url')
  case None
  with inv show ?thesis by (auto simp: cache_find_def)
next
  case (Some k)
  from inv have mx: "\<not> mutex s" by (simp add: cache_inv_def)
  show ?thesis
  proof (cases "map_find (map_tbl s) k")
    case None
    from cache_find_miss [OF mx None] Some inv show ?thesis by blast
  next
    case (Some a)
    from cache_find_hit [OF inv Some] \<open>url' = Some k\<close> show ?thesis by blast
  qed
qed

lemma cache_add_total:
  assumes inv: "cache_inv s es"
    and buf: "\<And>d. data' = Some d \<Longrightarrow> unat n \<le> length d"
    and fits: "\<And>k a xs ys. url' = Some k \<Longrightarrow> map_find (map_tbl s) k = Some a \<Longrightarrow>
        es = xs @ a # ys \<Longrightarrow> total_len (heap s) xs + unat n \<le> 100"
  shows "\<exists>s' es'. cache_add plan url' data' n s = Some (Inr s') \<and> cache_inv s' es'"
proof (cases "url' = None \<or> data' = None \<or> n = 0 \<or> MAX_CACHE_SIZE < n")
  case True
  then have "cache_add plan url' data' n s = Some (Inr s)"
    by (auto simp: cache_add_def split: option.splits)
  with inv show ?thesis by blast
next
  case False
  then obtain k d where v: "url' = Some k" "data' = Some d" "n \<noteq> 0" "n \<le> MAX_CACHE_SIZE"
    by (auto simp: not_less)
  have long: "\<not> length d < unat n"
    using buf [OF v(2)] by simp
  show ?thesis
  proof (cases "map_find (map_tbl s) k")
    case None
    from cache_add_insert_path [OF inv None v(3,4), of plan d] obtain j s1 where
      inv1: "cache_inv (mutex_unlock s1) (take j es)"
      and branch: "if \<not> insert_allocs_ok plan (heap s1)
      then cache_add plan (Some k) (Some d) n s = Some (Inr (mutex_unlock s1))
      else if length d < unat n
      then cache_add plan (Some k) (Some d) n s = Some (Inl BufferOverrun)
      else (\<exists>s' ne up. cache_add plan (Some k) (Some d) n s = Some (Inr s') \<and>
         calloc_at plan = Some ne \<and> strdup_at plan = Some up \<and>
         cache_inv s' (ne # take j es) \<and>
         map_tbl s' = (k, up, ne) # map_tbl s1 \<and>
         current_size s' = current_size s1 + n \<and>
         key_of (heap s') ne = Some k \<and> payload_of (heap s') ne = Some (take (unat n) d) \<and>
         elem_len (heap s') ne = n \<and>
         (\<forall>b\<in>set (take j es). entry_view (heap s') b = entry_view (heap s) b))"
      by (elim exE conjE) (rule that; assumption)
    show ?thesis
    proof (cases "insert_allocs_ok plan (heap s1)")
      case False
      with branch have "cache_add plan (Some k) (Some d) n s = Some (Inr (mutex_unlock s1))"
        by (simp only: not_False_eq_True if_True)
      with inv1 v show ?thesis by blast
    next
      case True
      with branch long have "\<exists>s' ne up. cache_add plan (Some k) (Some d) n s = Some (Inr s') \<and>
         calloc_at plan = Some ne \<and> strdup_at plan = Some up \<and>
         cache_inv s' (ne # take j es) \<and>
         map_tbl s' = (k, up, ne) # map_tbl s1 \<and>
         current_size s' = current_size s1 + n \<and>
         key_of (heap s') ne = Some k \<and> payload_of (heap s') ne = Some (take (unat n) d) \<and>
         elem_len (heap s') ne = n \<and>
         (\<forall>b\<in>set (take j es). entry_view (heap s') b = entry_view (heap s) b)"
        by (simp only: not_True_eq_False if_False)
      then obtain s' ne where "cache_add plan (Some k) (Some d) n s = Some (Inr s')"
        "cache_inv s' (ne # take j es)"
        by (elim exE conjE) (rule that; assumption)
      with v show ?thesis by blast
    qed
  next
    case (Some a)
    from hit_in_list [OF inv Some] obtain xs ys where es: "es = xs @ a # ys" by blast
    from fits [OF v(1) Some es] have fit: "total_len (heap s) xs + unat n \<le> 100" .
    from cache_add_update_path [OF inv Some es v(3,4), of plan d] obtain j and s1 :: world where
      iff: "length xs < j \<longleftrightarrow> total_len (heap s) xs + unat n \<le> 100"
      and branch: "if \<not> length xs < j
      then cache_add plan (Some k) (Some d) n s = Some (Inl InvalidPointer)
      else if \<not> update_alloc_ok plan (heap s1) a
      then (\<exists>s'. cache_add plan (Some k) (Some d) n s = Some (Inr s') \<and>
         cache_inv s' (remove1 a (take j es)) \<and> heap s' a = None \<and>
         map_find (map_tbl s') k = None \<and>
         (\<forall>b\<in>set (remove1 a (take j es)). entry_view (heap s') b = entry_view (heap s) b))
      else if length d < unat n
      then cache_add plan (Some k) (Some d) n s = Some (Inl BufferOverrun)
      else (\<exists>s'. cache_add plan (Some k) (Some d) n s = Some (Inr s') \<and>
         cache_inv s' (a # remove1 a (take j es)) \<and>
         key_of (heap s') a = Some k \<and> payload_of (heap s') a = Some (take (unat n) d) \<and>
         elem_len (heap s') a = n \<and>
         (\<forall>b\<in>set (remove1 a (take j es)). entry_view (heap s') b = entry_view (heap s) b))"
      by (elim exE conjE) (rule that; assumption)
    from iff fit have kept: "length xs < j" by simp
    show ?thesis
    proof (cases "update_alloc_ok plan (heap s1) a")
      case False
      with branch kept have "\<exists>s'. cache_add plan (Some k) (Some d) n s = Some (Inr s') \<and>
         cache_inv s' (remove1 a (take j es)) \<and> heap s' a = None \<and>
         map_find (map_tbl s') k = None \<and>
         (\<forall>b\<in>set (remove1 a (take j es)). entry_view (heap s') b = entry_view (heap s) b)"
        by (simp only: not_True_eq_False not_False_eq_True if_False if_True)
      then obtain s' where "cache_add plan (Some k) (Some d) n s = Some (Inr s')"
        "cache_inv s' (remove1 a (take j es))"
        by (elim exE conjE) (rule that; assumption)
      with v show ?thesis by blast
    next
      case True
      with branch kept long have "\<exists>s'. cache_add plan (Some k) (Some d) n s = Some (Inr s') \<and>
         cache_inv s' (a # remove1 a (take j es)) \<and>
         key_of (heap s') a = Some k \<and> payload_of (heap s') a = Some (take (unat n) d) \<and>
         elem_len (heap s') a = n \<and>
         (\<forall>b\<in>set (remove1 a (take j es)). entry_view (heap s') b = entry_view (heap s) b)"
        by (simp only: not_True_eq_False not_False_eq_True if_False if_True)
      then obtain s' where "cache_add plan (Some k) (Some d) n s = Some (Inr s')"
        "cache_inv s' (a # remove1 a (take j es))"
        by (elim exE conjE) (rule that; assumption)
      with v show ?thesis by blast
    qed
  qed
qed

lemma evicted_keys_gone:
  assumes idx: "index_ok h m es" and dist: "distinct es"
    and idx1: "index_ok h1 m1 (take j es)" and mp: "set m1 \<subseteq> set m"
    and b: "b \<in> set (drop j es)" and kb: "key_of h b = Some kb"
  shows "map_of m1 kb = None"
proof (rule ccontr)
  assume "map_of m1 kb \<noteq> None"
  then obtain u' b' where m1: "map_of m1 kb = Some (u', b')" by auto
  from b have bes: "b \<in> set es" by (rule in_set_dropD)
  from index_entry [OF idx bes] kb obtain ub where m: "map_of m kb = Some (ub, b)"
    by auto
  from m1 mp have "(kb, u', b') \<in> set m"
    by (auto dest: map_of_SomeD)
  moreover from idx have "distinct (map fst m)" by (simp add: index_ok_def)
  ultimately have "map_of m kb = Some (u', b')" by simp
  with m have "b' = b" by simp
  with index_lookup [OF idx1 m1] have "b \<in> set (take j es)" by simp
  moreover have "distinct (take j es @ drop j es)" using dist by simp
  ultimately show False using b by (simp only: distinct_append) blast
qed

section \<open>Evaluating the model on the example states\<close>

lemma evict_loop_unfold:
  "MAX_CACHE_SIZE < current_size s + n \<Longrightarrow>
   evict_loop n s =
     (case remove_lru_element_unlocked s of Inl e \<Rightarrow> Some (Inl e) | Inr s1 \<Rightarrow> evict_loop n s1)"
  by (subst evict_loop.simps) simp

lemmas model_defs =
  cache_add_def cache_add_insert_def cache_add_update_def cache_find_def mutex_lock_def
  mutex_unlock_def map_find_def map_insert_def map_erase_def free_cache_element_def
  detach_node_unlocked_def attach_node_to_head_unlocked_def remove_lru_element_unlocked_def
  on_heap_def put_element_def get_element_def get_string_def memcpy_def free_def malloc_def
  calloc_element_def strdup_def alloc_def MAX_CACHE_SIZE_def plan_at_def

lemmas inv_defs =
  cache_inv_def struct_inv_def index_ok_def payloads_ok_def payload_ok_def payload_of_def
  key_of_def url_of_def data_of_def elem_len_def string_at_def bytes_at_def total_len_def
  MAX_CACHE_SIZE_def

lemma two_entries_inv: "cache_inv two_entries [3, 0]"
  by (simp add: two_entries_def inv_defs)

lemma two_entries_reached: "run fill_two empty_cache = Some (Inr two_entries)"
  by (simp add: fill_two_def empty_cache_def two_entries_def model_defs evict_loop_stop Let_def fun_eq_iff)

lemma evict_a_update:
  "remove_lru_element_unlocked (loop_entry ''b'' two_entries) = Inr b_alone"
  by (simp add: loop_entry_def two_entries_def b_alone_def model_defs elem_len_def fun_eq_iff)

lemma evict_a_insert:
  "remove_lru_element_unlocked (loop_entry ''c'' two_entries) = Inr (b_alone\<lparr>current_size := 90\<rparr>)"
  by (simp add: loop_entry_def two_entries_def b_alone_def model_defs elem_len_def fun_eq_iff)

lemma loop_c5:
  "evict_loop 5 (loop_entry ''c'' two_entries) = Some (Inr (b_alone\<lparr>current_size := 90\<rparr>))"
proof -
  have "MAX_CACHE_SIZE < current_size (loop_entry ''c'' two_entries) + 5"
    by (simp add: loop_entry_def two_entries_def map_find_def MAX_CACHE_SIZE_def)
  moreover have "\<not> MAX_CACHE_SIZE < current_size (b_alone\<lparr>current_size := 90\<rparr>) + 5"
    by (simp add: MAX_CACHE_SIZE_def)
  ultimately show ?thesis
    by (simp add: evict_loop_unfold evict_a_insert evict_loop_stop)
qed

lemma prefix_of_two:
  assumes j: "j \<le> 2" and ie: "index_entries (map_tbl b_alone) = set (take j [3, 0 :: addr])"
  shows "j = 1"
proof -
  from j consider "j = 0" | "j = 1" | "j = 2" by arith
  then show ?thesis
    using ie by cases (simp_all add: index_entries_def b_alone_def)
qed

section \<open>The claims\<close>

text \<open>C4: a call of \<^verbatim>\<open>cache_add\<close> with a null key, a null payload, length 0 or a length
  above \<^verbatim>\<open>MAX_CACHE_SIZE\<close> returns and leaves the whole state as it was: the index, the
  recency list, \<^verbatim>\<open>current_size\<close>, the heap, and the lock, which it does not take.\<close>

theorem cache_add_invalid_noop:
  "url' = None \<or> data' = None \<or> length' = 0 \<or> MAX_CACHE_SIZE < length' \<Longrightarrow>
   cache_add plan url' data' length' s = Some (Inr s)"
  by (auto simp: cache_add_def split: option.splits)

theorem cache_add_invalid_noop_witness:
  "MAX_CACHE_SIZE < (101 :: size_t) \<and>
   cache_add (plan_at 0) (Some ''a'') (Some [1, 2, 3]) 101 empty_cache = Some (Inr empty_cache)"
proof -
  have h: "Some ''a'' = None \<or> Some [1, 2, 3 :: byte] = None \<or> (101 :: size_t) = 0 \<or> MAX_CACHE_SIZE < (101 :: size_t)"
    by (simp add: MAX_CACHE_SIZE_def)
  from cache_add_invalid_noop [OF h] show ?thesis
    by (simp add: MAX_CACHE_SIZE_def)
qed

text \<open>C3: \<^verbatim>\<open>cache_find\<close> with a null key returns \<^verbatim>\<open>NULL\<close> and leaves every state as it
  is, also one whose lock is held, where a call with a key does not return: the null
  check comes before the lock. A key that is in the index returns its entry, which
  becomes the head of the recency list while the other entries keep their order. A key
  that is not in the index returns \<^verbatim>\<open>NULL\<close> and leaves the state as it was. No call
  changes the bytes of a payload buffer.\<close>

theorem cache_find_spec:
  "cache_find None s = Some (Inr (None, s)) \<and>
   (mutex s \<longrightarrow> cache_find (Some k) s = None) \<and>
   (\<not> mutex s \<and> map_find (map_tbl s) k = None \<longrightarrow> cache_find (Some k) s = Some (Inr (None, s))) \<and>
   (cache_inv s es \<and> map_find (map_tbl s) k = Some a \<longrightarrow>
      (\<exists>s'. cache_find (Some k) s = Some (Inr (Some a, s')) \<and>
         cache_inv s' (a # remove1 a es) \<and> head s' = Some a \<and>
         map_tbl s' = map_tbl s \<and> current_size s' = current_size s \<and>
         (\<forall>b bs. heap s' b = Some (Buffer bs) \<longleftrightarrow> heap s b = Some (Buffer bs))))"
proof (intro conjI impI)
  show "cache_find None s = Some (Inr (None, s))"
    by (simp add: cache_find_def)
  show "cache_find (Some k) s = None" if "mutex s"
    using that by (simp add: cache_find_def mutex_lock_def)
  show "cache_find (Some k) s = Some (Inr (None, s))" if "\<not> mutex s \<and> map_find (map_tbl s) k = None"
    using that by (simp add: cache_find_miss)
  show "\<exists>s'. cache_find (Some k) s = Some (Inr (Some a, s')) \<and>
         cache_inv s' (a # remove1 a es) \<and> head s' = Some a \<and>
         map_tbl s' = map_tbl s \<and> current_size s' = current_size s \<and>
         (\<forall>b bs. heap s' b = Some (Buffer bs) \<longleftrightarrow> heap s b = Some (Buffer bs))"
    if "cache_inv s es \<and> map_find (map_tbl s) k = Some a"
  proof -
    from that cache_find_hit [of s es k a] obtain s' where
      f: "cache_find (Some k) s = Some (Inr (Some a, s'))" and inv: "cache_inv s' (a # remove1 a es)"
      and sc: "same_content (heap s) (heap s')"
      and fr: "map_tbl s' = map_tbl s" "current_size s' = current_size s"
      by blast
    from inv have "head s' = Some a"
      by (simp add: cache_inv_def struct_inv_def)
    with f inv fr same_content_Buffer [OF sc] show ?thesis by blast
  qed
qed

theorem cache_find_spec_witness:
  "mutex (two_entries\<lparr>mutex := True\<rparr>) \<and> cache_find (Some ''a'') (two_entries\<lparr>mutex := True\<rparr>) = None \<and>
   \<not> mutex two_entries \<and> map_find (map_tbl two_entries) ''c'' = None \<and>
   cache_find (Some ''c'') two_entries = Some (Inr (None, two_entries)) \<and>
   cache_inv two_entries [3, 0] \<and> map_find (map_tbl two_entries) ''a'' = Some 0 \<and>
   (\<exists>s'. cache_find (Some ''a'') two_entries = Some (Inr (Some 0, s')) \<and>
      cache_inv s' [0, 3] \<and> head s' = Some 0 \<and>
      map_tbl s' = map_tbl two_entries \<and> current_size s' = current_size two_entries \<and>
      (\<forall>b bs. heap s' b = Some (Buffer bs) \<longleftrightarrow> heap two_entries b = Some (Buffer bs)))"
proof -
  have 1: "mutex (two_entries\<lparr>mutex := True\<rparr>)" by simp
  have 2: "\<not> mutex two_entries \<and> map_find (map_tbl two_entries) ''c'' = None"
    by (simp add: two_entries_def map_find_def)
  have 3: "cache_inv two_entries [3, 0] \<and> map_find (map_tbl two_entries) ''a'' = Some 0"
    by (simp add: two_entries_inv) (simp add: two_entries_def map_find_def)
  from cache_find_spec [of "two_entries\<lparr>mutex := True\<rparr>" "''a''" "[]" 0] 1
  have a: "cache_find (Some ''a'') (two_entries\<lparr>mutex := True\<rparr>) = None" by blast
  from cache_find_spec [of two_entries "''c''" "[]" 0] 2
  have b: "cache_find (Some ''c'') two_entries = Some (Inr (None, two_entries))" by blast
  from cache_find_spec [of two_entries "''a''" "[3, 0]" 0] 3
  have c: "\<exists>s'. cache_find (Some ''a'') two_entries = Some (Inr (Some 0, s')) \<and>
      cache_inv s' (0 # remove1 0 [3, 0]) \<and> head s' = Some 0 \<and>
      map_tbl s' = map_tbl two_entries \<and> current_size s' = current_size two_entries \<and>
      (\<forall>b bs. heap s' b = Some (Buffer bs) \<longleftrightarrow> heap two_entries b = Some (Buffer bs))"
    by blast
  from 1 2 3 a b c show ?thesis by simp
qed

text \<open>C1, as the claim states it, fails inside a call that returns. Updating "b" with 95
  bytes in \<open>two_entries\<close> (reached from the empty cache by \<open>fill_two\<close>) first subtracts
  the old length 90 of "b" from \<^verbatim>\<open>current_size\<close>, and the loop then evicts "a": right
  after that eviction \<^verbatim>\<open>current_size\<close> is 0 while the index still leads to "b" with
  \<^verbatim>\<open>len\<close> 90. The call goes on and returns with \<^verbatim>\<open>current_size\<close> 95.\<close>

theorem size_gap_inside_update:
  "run fill_two empty_cache = Some (Inr two_entries) \<and>
   MAX_CACHE_SIZE < current_size (loop_entry ''b'' two_entries) + 95 \<and>
   map_sum id sizes_of (remove_lru_element_unlocked (loop_entry ''b'' two_entries)) = Inr (0, 90) \<and>
   observe (cache_add (plan_at 6) (Some ''b'') (Some (replicate 95 9)) 95 two_entries) =
     Some (Inr ([(''b'', 4, 3)], Some 3, Some 3, 95, False))"
proof (intro conjI)
  show "run fill_two empty_cache = Some (Inr two_entries)"
    by (rule two_entries_reached)
  show "MAX_CACHE_SIZE < current_size (loop_entry ''b'' two_entries) + 95"
    by (simp add: loop_entry_def two_entries_def map_find_def elem_len_def MAX_CACHE_SIZE_def)
  show "map_sum id sizes_of (remove_lru_element_unlocked (loop_entry ''b'' two_entries)) = Inr (0, 90)"
    by (simp add: loop_entry_def two_entries_def model_defs elem_len_def sizes_of_def
        index_total_def index_entries_def)
  show "observe (cache_add (plan_at 6) (Some ''b'') (Some (replicate 95 9)) 95 two_entries) =
     Some (Inr ([(''b'', 4, 3)], Some 3, Some 3, 95, False))"
    by (simp add: two_entries_def model_defs elem_len_def evict_loop_stop evict_loop_unfold
        observe_def fields_of_def)
qed

text \<open>C1, amended. \<open>cache_inv\<close> holds after \<^verbatim>\<open>cache_init\<close>, and in a state \<open>s\<close> with
  \<open>cache_inv\<close>:
  \<^item> \<^verbatim>\<open>current_size\<close> is the exact sum of the \<^verbatim>\<open>len\<close> fields of the entries the index
    leads to, and at most \<^verbatim>\<open>MAX_CACHE_SIZE\<close>;
  \<^item> every \<^verbatim>\<open>cache_find\<close> returns and leaves a state with \<open>cache_inv\<close>;
  \<^item> every \<^verbatim>\<open>cache_add\<close> whose buffer holds the \<open>n\<close> bytes it announces returns and
    leaves a state with \<open>cache_inv\<close>, provided that, when it updates an entry \<open>a\<close>, the
    entries more recent than \<open>a\<close> and the new payload fit in \<^verbatim>\<open>MAX_CACHE_SIZE\<close> (then
    the loop does not reach \<open>a\<close> itself);
  \<^item> inside \<^verbatim>\<open>cache_add\<close>, in every state \<open>t\<close> the eviction loop passes through (before
    the first and after each eviction): on the insert branch \<^verbatim>\<open>current_size\<close> is that
    sum and at most \<^verbatim>\<open>MAX_CACHE_SIZE\<close>; on the update branch, under the same proviso,
    \<^verbatim>\<open>current_size\<close> plus the old length of the entry being updated is that sum.\<close>

theorem size_invariant_amended:
  assumes inv: "cache_inv s es"
  shows "(\<forall>h s0. cache_init True h = Inr s0 \<longrightarrow> cache_inv s0 []) \<and>
    unat (current_size s) = index_total s \<and> current_size s \<le> MAX_CACHE_SIZE \<and>
    (\<exists>r s' es'. cache_find url' s = Some (Inr (r, s')) \<and> cache_inv s' es') \<and>
    ((\<forall>d. data' = Some d \<longrightarrow> unat n \<le> length d) \<and>
     (\<forall>k a xs ys. url' = Some k \<and> map_find (map_tbl s) k = Some a \<and> es = xs @ a # ys \<longrightarrow>
        total_len (heap s) xs + unat n \<le> unat MAX_CACHE_SIZE) \<longrightarrow>
     (\<exists>s' es'. cache_add plan url' data' n s = Some (Inr s') \<and> cache_inv s' es')) \<and>
    (n \<le> MAX_CACHE_SIZE \<and> map_find (map_tbl s) k = None \<and> evict_visits n (loop_entry k s) t \<longrightarrow>
       unat (current_size t) = index_total t \<and> current_size t \<le> MAX_CACHE_SIZE) \<and>
    (n \<le> MAX_CACHE_SIZE \<and> map_find (map_tbl s) k = Some a \<and> es = xs @ a # ys \<and>
     total_len (heap s) xs + unat n \<le> unat MAX_CACHE_SIZE \<and> evict_visits n (loop_entry k s) t \<longrightarrow>
       unat (current_size t) + unat (elem_len (heap s) a) = index_total t \<and>
       index_total t \<le> unat MAX_CACHE_SIZE)"
proof (intro conjI allI impI)
  fix h s0 assume "cache_init True h = Inr s0"
  then show "cache_inv s0 []" by (rule cache_init_inv)
next
  show "unat (current_size s) = index_total s"
    by (rule cache_inv_total [OF inv])
  show "current_size s \<le> MAX_CACHE_SIZE"
    using inv by (simp add: cache_inv_def)
  show "\<exists>r s' es'. cache_find url' s = Some (Inr (r, s')) \<and> cache_inv s' es'"
    by (rule cache_find_total [OF inv])
next
  assume pre: "(\<forall>d. data' = Some d \<longrightarrow> unat n \<le> length d) \<and>
     (\<forall>k a xs ys. url' = Some k \<and> map_find (map_tbl s) k = Some a \<and> es = xs @ a # ys \<longrightarrow>
        total_len (heap s) xs + unat n \<le> unat MAX_CACHE_SIZE)"
  show "\<exists>s' es'. cache_add plan url' data' n s = Some (Inr s') \<and> cache_inv s' es'"
  proof (rule cache_add_total [OF inv])
    fix d assume "data' = Some d"
    with pre show "unat n \<le> length d" by blast
  next
    fix k a xs ys assume "url' = Some k" "map_find (map_tbl s) k = Some a" "es = xs @ a # ys"
    with pre have "total_len (heap s) xs + unat n \<le> unat MAX_CACHE_SIZE" by blast
    then show "total_len (heap s) xs + unat n \<le> 100" by simp
  qed
next
  assume a: "n \<le> MAX_CACHE_SIZE \<and> map_find (map_tbl s) k = None \<and> evict_visits n (loop_entry k s) t"
  then have le: "loop_entry k s = s\<lparr>mutex := True\<rparr>"
    by (simp add: loop_entry_def)
  from inv have "struct_inv (loop_entry k s) es"
    "unat (current_size (loop_entry k s)) = total_len (heap (loop_entry k s)) es"
    "current_size (loop_entry k s) \<le> MAX_CACHE_SIZE"
    by (simp_all add: le cache_inv_def)
  from visits_insert [OF _ this] a obtain es' where
    t: "struct_inv t es'" "unat (current_size t) = total_len (heap t) es'"
      "current_size t \<le> MAX_CACHE_SIZE"
    by blast
  from t(2) struct_total [OF t(1)] show "unat (current_size t) = index_total t" by simp
  from t(3) show "current_size t \<le> MAX_CACHE_SIZE" .
next
  assume a: "n \<le> MAX_CACHE_SIZE \<and> map_find (map_tbl s) k = Some a \<and> es = xs @ a # ys \<and>
     total_len (heap s) xs + unat n \<le> unat MAX_CACHE_SIZE \<and> evict_visits n (loop_entry k s) t"
  then have es: "es = xs @ a # ys" and fit: "total_len (heap s) xs + unat n \<le> 100"
    and n: "n \<le> MAX_CACHE_SIZE" and v: "evict_visits n (loop_entry k s) t"
    by simp_all
  from a have le: "loop_entry k s = s\<lparr>mutex := True, current_size := current_size s - elem_len (heap s) a\<rparr>"
    by (simp add: loop_entry_def)
  from inv have sz: "unat (current_size s) = total_len (heap s) es"
    and c100: "total_len (heap s) es \<le> 100"
    by (simp_all add: cache_inv_def word_le_nat_alt)
  have la: "elem_len (heap s) a \<le> current_size s"
    using sz es by (simp add: word_le_nat_alt)
  have 1: "struct_inv (loop_entry k s) (xs @ a # ys)"
    using inv es by (simp add: cache_inv_def)
  have 2: "unat (current_size (loop_entry k s)) = total_len (heap (loop_entry k s)) (xs @ ys)"
    using sz es by (simp add: le unat_sub [OF la])
  have 3: "total_len (heap (loop_entry k s)) (xs @ a # ys) \<le> 100"
    using c100 es by simp
  have 4: "total_len (heap (loop_entry k s)) xs + unat n \<le> 100"
    using fit by simp
  from visits_update [OF v 1 2 3 n 4] obtain ys' where
    t: "struct_inv t (xs @ a # ys')" "unat (current_size t) = total_len (heap t) (xs @ ys')"
      "total_len (heap t) (xs @ a # ys') \<le> 100" "elem_len (heap t) a = elem_len (heap s) a"
    by auto
  from struct_total [OF t(1)] t(2,4)
  show "unat (current_size t) + unat (elem_len (heap s) a) = index_total t" by simp
  from struct_total [OF t(1)] t(3) show "index_total t \<le> unat MAX_CACHE_SIZE" by simp
qed

theorem size_invariant_amended_witness:
  "cache_inv two_entries [3, 0] \<and>
   (\<exists>r s' es'. cache_find (Some ''a'') two_entries = Some (Inr (r, s')) \<and> cache_inv s' es') \<and>
   (\<exists>s' es'. cache_add (plan_at 6) (Some ''b'') (Some (replicate 95 9)) 95 two_entries = Some (Inr s') \<and>
      cache_inv s' es') \<and>
   evict_visits 95 (loop_entry ''b'' two_entries) b_alone \<and>
   unat (current_size b_alone) + unat (elem_len (heap two_entries) 3) = index_total b_alone \<and>
   evict_visits 5 (loop_entry ''c'' two_entries) (b_alone\<lparr>current_size := 90\<rparr>) \<and>
   unat (current_size (b_alone\<lparr>current_size := 90\<rparr>)) = index_total (b_alone\<lparr>current_size := 90\<rparr>) \<and>
   current_size (b_alone\<lparr>current_size := 90\<rparr>) \<le> MAX_CACHE_SIZE"
proof -
  have hit: "map_find (map_tbl two_entries) ''b'' = Some 3"
    and miss: "map_find (map_tbl two_entries) ''c'' = None"
    by (simp_all add: two_entries_def map_find_def)
  have n: "(95 :: size_t) \<le> MAX_CACHE_SIZE" "(5 :: size_t) \<le> MAX_CACHE_SIZE"
    by (simp_all add: MAX_CACHE_SIZE_def)
  have es: "[3, 0] = [] @ 3 # [0 :: addr]" by simp
  have fit: "total_len (heap two_entries) [] + unat (95 :: size_t) \<le> unat MAX_CACHE_SIZE"
    by simp
  have buf: "\<forall>d. Some (replicate 95 (9 :: byte)) = Some d \<longrightarrow> unat (95 :: size_t) \<le> length d"
    by auto
  have fits: "\<forall>k a xs ys. Some ''b'' = Some k \<and> map_find (map_tbl two_entries) k = Some a \<and>
      [3, 0] = xs @ a # ys \<longrightarrow> total_len (heap two_entries) xs + unat (95 :: size_t) \<le> unat MAX_CACHE_SIZE"
  proof (intro allI impI)
    fix k a xs ys
    assume "Some ''b'' = Some k \<and> map_find (map_tbl two_entries) k = Some a \<and> [3, 0] = xs @ a # ys"
    with hit have "[3, 0 :: addr] = xs @ 3 # ys" by auto
    then have "xs = []" by (cases xs) (auto simp: Cons_eq_append_conv)
    then show "total_len (heap two_entries) xs + unat (95 :: size_t) \<le> unat MAX_CACHE_SIZE"
      by simp
  qed
  have v1: "evict_visits 95 (loop_entry ''b'' two_entries) b_alone"
    by (rule evict_visits.step [OF _ evict_a_update evict_visits.start])
      (simp add: loop_entry_def two_entries_def map_find_def elem_len_def MAX_CACHE_SIZE_def)
  have v2: "evict_visits 5 (loop_entry ''c'' two_entries) (b_alone\<lparr>current_size := 90\<rparr>)"
    by (rule evict_visits.step [OF _ evict_a_insert evict_visits.start])
      (simp add: loop_entry_def two_entries_def map_find_def MAX_CACHE_SIZE_def)
  note upd = size_invariant_amended [OF two_entries_inv, where url' = "Some ''a''" and k = "''b''"
      and n = 95 and a = 3 and xs = "[]" and ys = "[0]" and t = b_alone]
  note add = size_invariant_amended [OF two_entries_inv, where url' = "Some ''b''"
      and data' = "Some (replicate 95 9)" and n = 95 and plan = "plan_at 6"]
  note ins = size_invariant_amended [OF two_entries_inv, where k = "''c''" and n = 5
      and t = "b_alone\<lparr>current_size := 90\<rparr>"]
  from upd have 1: "\<exists>r s' es'. cache_find (Some ''a'') two_entries = Some (Inr (r, s')) \<and> cache_inv s' es'"
    by blast
  from add buf fits
  have 2: "\<exists>s' es'. cache_add (plan_at 6) (Some ''b'') (Some (replicate 95 9)) 95 two_entries = Some (Inr s') \<and>
      cache_inv s' es'"
    by blast
  from upd n(1) hit es fit v1
  have 3: "unat (current_size b_alone) + unat (elem_len (heap two_entries) 3) = index_total b_alone"
    by blast
  from ins n(2) miss v2
  have 4: "unat (current_size (b_alone\<lparr>current_size := 90\<rparr>)) = index_total (b_alone\<lparr>current_size := 90\<rparr>) \<and>
     current_size (b_alone\<lparr>current_size := 90\<rparr>) \<le> MAX_CACHE_SIZE"
    by blast
  from two_entries_inv 1 2 v1 3 v2 4 show ?thesis by blast
qed

text \<open>C2: in a well-formed cache with recency list \<open>es\<close> (most recent first), the eviction
  loop of a valid \<^verbatim>\<open>cache_add\<close>, on either branch, removes a suffix of \<open>es\<close>, the least
  recently used end, and leaves the first \<open>j\<close> entries as the list and as the entries of
  the index. Each removed entry is freed and gone from the index, and its length has been
  subtracted from \<^verbatim>\<open>current_size\<close>; the kept entries are unchanged. The loop stops
  when \<^verbatim>\<open>current_size + length > MAX_CACHE_SIZE\<close> is false, and that test was true at
  every earlier stage, when the list was a longer prefix of \<open>es\<close>. When the key is new,
  the allocations succeed and the buffer holds \<open>n\<close> bytes, the call returns with the new
  entry in front of the kept ones, \<^verbatim>\<open>current_size\<close> is the kept lengths plus \<open>n\<close>, no
  longer prefix would have fitted, and the keys of the removed entries are not found.\<close>

theorem eviction_is_lru:
  assumes inv: "cache_inv s es" and n0: "n \<noteq> 0" and n: "n \<le> MAX_CACHE_SIZE"
  shows "\<exists>j s1. j \<le> length es \<and> evict_loop n (loop_entry k s) = Some (Inr s1) \<and>
     struct_inv s1 (take j es) \<and> index_entries (map_tbl s1) = set (take j es) \<and>
     (\<forall>b\<in>set (drop j es). heap s1 b = None \<and> b \<notin> index_entries (map_tbl s1)) \<and>
     (\<forall>b\<in>set (take j es). entry_view (heap s1) b = entry_view (heap s) b) \<and>
     current_size s1 = current_size (loop_entry k s) - of_nat (total_len (heap s) (drop j es)) \<and>
     \<not> MAX_CACHE_SIZE < current_size s1 + n \<and>
     (\<forall>i. j < i \<and> i \<le> length es \<longrightarrow>
        MAX_CACHE_SIZE < current_size (loop_entry k s) - of_nat (total_len (heap s) (drop i es)) + n) \<and>
     (map_find (map_tbl s) k = None \<and> insert_allocs_ok plan (heap s) \<and> unat n \<le> length d \<longrightarrow>
        (\<exists>s' ne. cache_add plan (Some k) (Some d) n s = Some (Inr s') \<and>
           cache_inv s' (ne # take j es) \<and>
           total_len (heap s) (take j es) + unat n \<le> unat MAX_CACHE_SIZE \<and>
           (\<forall>i. j < i \<and> i \<le> length es \<longrightarrow>
              unat MAX_CACHE_SIZE < total_len (heap s) (take i es) + unat n) \<and>
           (\<forall>b\<in>set (take j es). entry_view (heap s') b = entry_view (heap s) b) \<and>
           (\<forall>b\<in>set (drop j es). \<forall>kb. key_of (heap s) b = Some kb \<longrightarrow>
              map_find (map_tbl s') kb = None) \<and>
           unat (current_size s') = total_len (heap s) (take j es) + unat n))"
proof -
  from inv have idx: "index_ok (heap s) (map_tbl s) es" and dist: "distinct es"
    by (simp_all add: cache_inv_def struct_inv_def)
  from entry_loop [OF inv n, of k] obtain j and s1 :: world where
    j: "j \<le> length es" and loop: "evict_loop n (loop_entry k s) = Some (Inr s1)"
    and inv1: "struct_inv s1 (take j es)"
    and cs1: "current_size s1 = current_size (loop_entry k s) - of_nat (total_len (heap s) (drop j es))"
    and stop: "\<not> MAX_CACHE_SIZE < current_size s1 + n"
    and stages: "\<forall>i. j < i \<and> i \<le> length es \<longrightarrow>
        MAX_CACHE_SIZE < current_size (loop_entry k s) - of_nat (total_len (heap s) (drop i es)) + n"
    and vw1: "\<forall>b\<in>set (take j es). entry_view (heap s1) b = entry_view (heap s) b"
    and fr: "\<forall>b\<in>set (drop j es). heap s1 b = None"
    by (elim exE conjE) (rule that; assumption)
  from inv1 have idx1: "index_ok (heap s1) (map_tbl s1) (take j es)"
    by (simp add: struct_inv_def)
  have ie: "index_entries (map_tbl s1) = set (take j es)"
    by (rule index_entries_inv [OF idx1])
  have disj: "b \<notin> set (take j es)" if "b \<in> set (drop j es)" for b
  proof -
    have "distinct (take j es @ drop j es)" using dist by simp
    with that show ?thesis by (simp only: distinct_append) blast
  qed
  have ev: "\<forall>b\<in>set (drop j es). heap s1 b = None \<and> b \<notin> index_entries (map_tbl s1)"
    using fr disj by (simp add: ie)
  have ins: "\<exists>s' ne. cache_add plan (Some k) (Some d) n s = Some (Inr s') \<and>
           cache_inv s' (ne # take j es) \<and>
           total_len (heap s) (take j es) + unat n \<le> unat MAX_CACHE_SIZE \<and>
           (\<forall>i. j < i \<and> i \<le> length es \<longrightarrow>
              unat MAX_CACHE_SIZE < total_len (heap s) (take i es) + unat n) \<and>
           (\<forall>b\<in>set (take j es). entry_view (heap s') b = entry_view (heap s) b) \<and>
           (\<forall>b\<in>set (drop j es). \<forall>kb. key_of (heap s) b = Some kb \<longrightarrow>
              map_find (map_tbl s') kb = None) \<and>
           unat (current_size s') = total_len (heap s) (take j es) + unat n"
    if pre: "map_find (map_tbl s) k = None \<and> insert_allocs_ok plan (heap s) \<and> unat n \<le> length d"
  proof -
    from pre have absent: "map_find (map_tbl s) k = None" and allocs: "insert_allocs_ok plan (heap s)"
      and long: "\<not> length d < unat n" by simp_all
    from absent have le: "loop_entry k s = s\<lparr>mutex := True\<rparr>"
      by (simp add: loop_entry_def)
    from cache_add_insert_path [OF inv absent n0 n, of plan d] obtain j' s1' where
      j': "j' \<le> length es" and loop': "evict_loop n (s\<lparr>mutex := True\<rparr>) = Some (Inr s1')"
      and inv1': "cache_inv (mutex_unlock s1') (take j' es)"
      and fit: "total_len (heap s) (take j' es) + unat n \<le> 100"
      and st': "\<forall>i. j' < i \<and> i \<le> length es \<longrightarrow> 100 < total_len (heap s) (take i es) + unat n"
      and nn: "\<forall>b. heap s b = None \<longrightarrow> heap s1' b = None"
      and mp: "set (map_tbl s1') \<subseteq> set (map_tbl s)"
      and branch: "if \<not> insert_allocs_ok plan (heap s1')
      then cache_add plan (Some k) (Some d) n s = Some (Inr (mutex_unlock s1'))
      else if length d < unat n
      then cache_add plan (Some k) (Some d) n s = Some (Inl BufferOverrun)
      else (\<exists>s' ne up. cache_add plan (Some k) (Some d) n s = Some (Inr s') \<and>
         calloc_at plan = Some ne \<and> strdup_at plan = Some up \<and>
         cache_inv s' (ne # take j' es) \<and>
         map_tbl s' = (k, up, ne) # map_tbl s1' \<and>
         current_size s' = current_size s1' + n \<and>
         key_of (heap s') ne = Some k \<and> payload_of (heap s') ne = Some (take (unat n) d) \<and>
         elem_len (heap s') ne = n \<and>
         (\<forall>b\<in>set (take j' es). entry_view (heap s') b = entry_view (heap s) b))"
      by (elim exE conjE) (rule that; assumption)
    from loop loop' have s1': "s1' = s1" by (simp add: le)
    from inv1' have "index_ok (heap s1) (map_tbl s1) (take j' es)"
      by (simp add: cache_inv_def struct_inv_def mutex_unlock_def s1')
    from index_entries_inv [OF this] ie have "set (take j es) = set (take j' es)" by simp
    from prefix_unique [OF dist j j' this] have jj: "j' = j" by simp
    have ok: "insert_allocs_ok plan (heap s1')"
    proof (rule insert_allocs_ok_mono [OF allocs])
      fix b assume "heap s b = None"
      with nn show "heap s1' b = None" by simp
    qed
    from branch have "\<exists>s' ne up. cache_add plan (Some k) (Some d) n s = Some (Inr s') \<and>
         calloc_at plan = Some ne \<and> strdup_at plan = Some up \<and>
         cache_inv s' (ne # take j' es) \<and>
         map_tbl s' = (k, up, ne) # map_tbl s1' \<and>
         current_size s' = current_size s1' + n \<and>
         key_of (heap s') ne = Some k \<and> payload_of (heap s') ne = Some (take (unat n) d) \<and>
         elem_len (heap s') ne = n \<and>
         (\<forall>b\<in>set (take j' es). entry_view (heap s') b = entry_view (heap s) b)"
      by (simp only: ok long not_True_eq_False if_False)
    then obtain s' ne up where
      run: "cache_add plan (Some k) (Some d) n s = Some (Inr s')"
      and inv': "cache_inv s' (ne # take j es)"
      and mp': "map_tbl s' = (k, up, ne) # map_tbl s1"
      and len': "elem_len (heap s') ne = n"
      and vw: "\<forall>b\<in>set (take j es). entry_view (heap s') b = entry_view (heap s) b"
      unfolding jj s1' by (elim exE conjE) (rule that; assumption)
    have gone: "map_find (map_tbl s') kb = None"
      if b: "b \<in> set (drop j es)" and kb: "key_of (heap s) b = Some kb" for b kb
    proof -
      from b have bes: "b \<in> set es" by (rule in_set_dropD)
      from index_entry [OF idx bes] kb obtain ub where "map_of (map_tbl s) kb = Some (ub, b)"
        by auto
      with absent have "kb \<noteq> k" by (auto simp: map_find_def)
      moreover have "map_of (map_tbl s1) kb = None"
        using evicted_keys_gone [OF idx dist idx1 _ b kb] mp by (simp add: s1')
      ultimately show ?thesis by (simp add: mp' map_find_def)
    qed
    have tot: "total_len (heap s') (take j es) = total_len (heap s) (take j es)"
      using vw by (intro total_len_views) simp
    from inv' have "unat (current_size s') = total_len (heap s') (ne # take j es)"
      by (simp add: cache_inv_def)
    then have sz: "unat (current_size s') = total_len (heap s) (take j es) + unat n"
      by (simp add: tot len')
    from run inv' fit st' vw gone sz show ?thesis
      unfolding jj unat_MAX by blast
  qed
  from j loop inv1 ie ev vw1 cs1 stop stages ins show ?thesis by blast
qed

theorem eviction_is_lru_witness:
  "cache_inv two_entries [3, 0] \<and> (5 :: size_t) \<noteq> 0 \<and> (5 :: size_t) \<le> MAX_CACHE_SIZE \<and>
   map_find (map_tbl two_entries) ''c'' = None \<and>
   insert_allocs_ok (plan_at 6) (heap two_entries) \<and>
   unat (5 :: size_t) \<le> length (replicate 5 (7 :: byte)) \<and>
   evict_loop 5 (loop_entry ''c'' two_entries) = Some (Inr (b_alone\<lparr>current_size := 90\<rparr>)) \<and>
   struct_inv (b_alone\<lparr>current_size := 90\<rparr>) [3] \<and>
   heap (b_alone\<lparr>current_size := 90\<rparr>) 0 = None \<and>
   (\<exists>s' ne. cache_add (plan_at 6) (Some ''c'') (Some (replicate 5 7)) 5 two_entries = Some (Inr s') \<and>
      cache_inv s' [ne, 3] \<and> map_find (map_tbl s') ''a'' = None \<and>
      unat (current_size s') = 95)"
proof -
  have n: "(5 :: size_t) \<noteq> 0" "(5 :: size_t) \<le> MAX_CACHE_SIZE"
    by (simp_all add: MAX_CACHE_SIZE_def)
  have pre: "map_find (map_tbl two_entries) ''c'' = None \<and>
     insert_allocs_ok (plan_at 6) (heap two_entries) \<and>
     unat (5 :: size_t) \<le> length (replicate 5 (7 :: byte))"
    by (simp add: two_entries_def map_find_def insert_allocs_ok_def plan_at_def)
  have ka: "key_of (heap two_entries) 0 = Some ''a''"
    by (simp add: two_entries_def key_of_def url_of_def string_at_def)
  have tl: "unat (elem_len (heap two_entries) 3) = 90"
    by (simp add: two_entries_def elem_len_def)
  from eviction_is_lru [OF two_entries_inv n, of "''c''" "plan_at 6" "replicate 5 7"]
  obtain j and s1 :: world where j: "j \<le> length [3, 0 :: addr]"
    and loop: "evict_loop 5 (loop_entry ''c'' two_entries) = Some (Inr s1)"
    and inv1: "struct_inv s1 (take j [3, 0])"
    and ie: "index_entries (map_tbl s1) = set (take j [3, 0])"
    and fr: "\<forall>b\<in>set (drop j [3, 0]). heap s1 b = None \<and> b \<notin> index_entries (map_tbl s1)"
    and ins: "map_find (map_tbl two_entries) ''c'' = None \<and>
       insert_allocs_ok (plan_at 6) (heap two_entries) \<and>
       unat (5 :: size_t) \<le> length (replicate 5 (7 :: byte)) \<longrightarrow>
        (\<exists>s' ne. cache_add (plan_at 6) (Some ''c'') (Some (replicate 5 7)) 5 two_entries = Some (Inr s') \<and>
           cache_inv s' (ne # take j [3, 0]) \<and>
           total_len (heap two_entries) (take j [3, 0]) + unat (5 :: size_t) \<le> unat MAX_CACHE_SIZE \<and>
           (\<forall>i. j < i \<and> i \<le> length [3, 0 :: addr] \<longrightarrow>
              unat MAX_CACHE_SIZE < total_len (heap two_entries) (take i [3, 0]) + unat (5 :: size_t)) \<and>
           (\<forall>b\<in>set (take j [3, 0]). entry_view (heap s') b = entry_view (heap two_entries) b) \<and>
           (\<forall>b\<in>set (drop j [3, 0]). \<forall>kb. key_of (heap two_entries) b = Some kb \<longrightarrow>
              map_find (map_tbl s') kb = None) \<and>
           unat (current_size s') = total_len (heap two_entries) (take j [3, 0]) + unat (5 :: size_t))"
    by (elim exE conjE) (rule that; assumption)
  from loop have s1: "s1 = b_alone\<lparr>current_size := 90\<rparr>"
    by (simp add: loop_c5)
  from j ie have j1: "j = 1"
    by (intro prefix_of_two) (simp_all add: s1)
  from inv1 have 1: "struct_inv (b_alone\<lparr>current_size := 90\<rparr>) [3]"
    by (simp add: s1 j1)
  from fr have 2: "heap (b_alone\<lparr>current_size := 90\<rparr>) 0 = None"
    by (simp add: s1 j1)
  from ins pre obtain s' ne where
    run: "cache_add (plan_at 6) (Some ''c'') (Some (replicate 5 7)) 5 two_entries = Some (Inr s')"
    and inv': "cache_inv s' (ne # take j [3, 0])"
    and gone: "\<forall>b\<in>set (drop j [3, 0]). \<forall>kb. key_of (heap two_entries) b = Some kb \<longrightarrow>
              map_find (map_tbl s') kb = None"
    and sz: "unat (current_size s') = total_len (heap two_entries) (take j [3, 0]) + unat (5 :: size_t)"
    by blast
  from gone ka have 3: "map_find (map_tbl s') ''a'' = None"
    by (simp add: j1)
  from sz have 4: "unat (current_size s') = 95"
    by (simp add: j1 tl)
  from inv' have 5: "cache_inv s' [ne, 3]" by (simp add: j1)
  from run 5 3 4 have "\<exists>s' ne. cache_add (plan_at 6) (Some ''c'') (Some (replicate 5 7)) 5 two_entries = Some (Inr s') \<and>
      cache_inv s' [ne, 3] \<and> map_find (map_tbl s') ''a'' = None \<and>
      unat (current_size s') = 95" by blast
  with two_entries_inv n pre loop_c5 1 2 show ?thesis by simp
qed

end
